theory Spec2Isabelle
  imports Complex_Main "HOL-Library.Word"
begin

section \<open>Discrete natural neighbour interpolation: the C++ extension module\<close>

text \<open>
  The development embeds \<^verbatim>\<open>naturalneighbor/cnaturalneighbor.cpp\<close>. The C++ type
  \<^verbatim>\<open>std::size_t\<close> is a 64-bit word, so that subtraction and multiplication wrap as
  they do in the program. A \<^verbatim>\<open>double\<close> is idealised as a real number: rounding,
  infinities and NaN are outside the model.
\<close>

type_synonym size_t = "64 word"

type_synonym point = "real \<times> real \<times> real"

subsection \<open>\<^verbatim>\<open>clamp\<close> and the region of interest\<close>

definition clamp :: "size_t \<Rightarrow> size_t \<Rightarrow> size_t \<Rightarrow> size_t" where
  "clamp val mn mx = (if val < mn then mn else if val > mx then mx else val)"

text \<open>
  \<^verbatim>\<open>int roi_radius = ceil(sqrt(distance_sq_to_known_point))\<close>: the conversion of a
  \<^verbatim>\<open>double\<close> to a 32-bit \<^verbatim>\<open>int\<close> is undefined outside the range of \<^verbatim>\<open>int\<close>,
  which is the value \<open>None\<close> here.
\<close>

definition roi_radius :: "real \<Rightarrow> int option" where
  "roi_radius distance_sq =
     (let r = \<lceil>sqrt distance_sq\<rceil>
      in if - 2147483648 \<le> r \<and> r \<le> 2147483647 then Some r else None)"

text \<open>
  \<^verbatim>\<open>clamp(i - roi_radius, 0, ni - 1)\<close> and \<^verbatim>\<open>clamp(i + roi_radius, 0, ni - 1)\<close>:
  \<^verbatim>\<open>i\<close> and \<^verbatim>\<open>ni\<close> are \<^verbatim>\<open>std::size_t\<close>, so the \<^verbatim>\<open>int\<close> radius is converted to
  \<^verbatim>\<open>std::size_t\<close> and the arithmetic is done modulo \<open>2 ^ 64\<close>.
\<close>

definition roi_min :: "size_t \<Rightarrow> int \<Rightarrow> size_t \<Rightarrow> size_t" where
  "roi_min i r ni = clamp (i - word_of_int r) 0 (ni - 1)"

definition roi_max :: "size_t \<Rightarrow> int \<Rightarrow> size_t \<Rightarrow> size_t" where
  "roi_max i r ni = clamp (i + word_of_int r) 0 (ni - 1)"

subsection \<open>Points and the spatial index\<close>

text \<open>
  Modelled from the spec: \<^verbatim>\<open>geometry.h\<close> is not part of the sources at hand. A point
  has three real coordinates; the squared distance of two points is the sum of the squared
  differences of their coordinates.
\<close>

fun coord :: "nat \<Rightarrow> point \<Rightarrow> real" where
  "coord 0 (x, y, z) = x"
| "coord (Suc 0) (x, y, z) = y"
| "coord (Suc (Suc n)) (x, y, z) = z"

fun distance_sq :: "point \<Rightarrow> point \<Rightarrow> real" where
  "distance_sq (x, y, z) (x', y', z') =
     (x - x') * (x - x') + (y - y') * (y - y') + (z - z') * (z - z')"

text \<open>
  Modelled from the spec: \<^verbatim>\<open>kdtree.h\<close> is not part of the sources at hand. An index
  node refers to one known point (its position and its value), has a splitting axis and at
  most two children. The tree is built by partitioning the points around their median along
  the axis \<open>depth mod 3\<close>. A query descends into the child on the query's side of the
  splitting plane first, keeps a running best (the first found wins a tie), and visits the
  other child unless the squared distance of the query to the splitting plane exceeds the
  best squared distance. The query on an index without points has no result.
\<close>

datatype kdnode = Leaf | Node kdnode "point \<times> real" nat kdnode

text \<open>
  Modelled from the spec: the result of a query, of which the program reads the fields
  \<^verbatim>\<open>distance\<close> (the squared distance) and \<^verbatim>\<open>value\<close>.
\<close>

record query_result =
  point :: point
  "value" :: real
  distance :: real

text \<open>
  Modelled from the spec: \<^verbatim>\<open>kdtree::build\<close>, the median partition with the axis
  cycling by depth; the points left of the median have a coordinate at most the node's on
  the axis, the points right of it at least the node's.
\<close>

fun build_node :: "nat \<Rightarrow> (point \<times> real) list \<Rightarrow> kdnode" where
  "build_node depth [] = Leaf"
| "build_node depth (p # ps) =
     (let axis = depth mod 3;
          sorted = sort_key (\<lambda>kp. coord axis (fst kp)) (p # ps);
          m = length (p # ps) div 2
      in Node (build_node (Suc depth) (take m sorted)) (sorted ! m) axis
              (build_node (Suc depth) (drop (Suc m) sorted)))"

definition build :: "(point \<times> real) list \<Rightarrow> kdnode" where
  "build nodes = build_node 0 nodes"

text \<open>
  Modelled from the spec: \<^verbatim>\<open>kdtree::nearest_iterative\<close>, with the running best
  (\<open>closer\<close>: a strictly smaller squared distance replaces it) and the pruning condition
  (\<open>prune\<close>).
\<close>

definition closer :: "point \<Rightarrow> point \<times> real \<Rightarrow> query_result option \<Rightarrow> query_result option" where
  "closer q kp best =
     (let d = distance_sq q (fst kp);
          found = \<lparr>point = fst kp, value = snd kp, distance = d\<rparr>
      in case best of
           None \<Rightarrow> Some found
         | Some b \<Rightarrow> if d < distance b then Some found else Some b)"

definition prune :: "real \<Rightarrow> query_result option \<Rightarrow> bool" where
  "prune dx best = (case best of None \<Rightarrow> False | Some b \<Rightarrow> dx * dx > distance b)"

fun nearest_node :: "point \<Rightarrow> kdnode \<Rightarrow> query_result option \<Rightarrow> query_result option" where
  "nearest_node q Leaf best = best"
| "nearest_node q (Node l kp axis r) best =
     (let dx = coord axis q - coord axis (fst kp);
          near = (if dx \<le> 0 then l else r);
          far = (if dx \<le> 0 then r else l);
          best' = nearest_node q near (closer q kp best)
      in if prune dx best' then best' else nearest_node q far best')"

definition nearest_iterative :: "kdnode \<Rightarrow> point \<Rightarrow> query_result option" where
  "nearest_iterative tree query = nearest_node query tree None"

text \<open>The exhaustive linear scan over all known points, the reference of the query.\<close>

definition linear_scan :: "point \<Rightarrow> (point \<times> real) list \<Rightarrow> query_result option" where
  "linear_scan q kps = fold (closer q) kps None"

text \<open>The known points of a tree, and the invariant of the index nodes.\<close>

fun set_tree :: "kdnode \<Rightarrow> (point \<times> real) set" where
  "set_tree Leaf = {}"
| "set_tree (Node l kp axis r) = insert kp (set_tree l \<union> set_tree r)"

fun invar :: "kdnode \<Rightarrow> bool" where
  "invar Leaf = True"
| "invar (Node l kp axis r) =
     ((\<forall>p \<in> set_tree l. coord axis (fst p) \<le> coord axis (fst kp)) \<and>
      (\<forall>p \<in> set_tree r. coord axis (fst kp) \<le> coord axis (fst p)) \<and>
      invar l \<and> invar r)"

text \<open>
  \<open>is_best q S best\<close>: \<open>best\<close> is a closest point to \<open>q\<close> among the known points \<open>S\<close>,
  with its squared distance, or there is no result and \<open>S\<close> is empty.
\<close>

definition is_best :: "point \<Rightarrow> (point \<times> real) set \<Rightarrow> query_result option \<Rightarrow> bool" where
  "is_best q S best =
     (case best of
        None \<Rightarrow> S = {}
      | Some b \<Rightarrow> (point b, value b) \<in> S \<and> distance b = distance_sq q (point b) \<and>
                 (\<forall>kp \<in> S. distance b \<le> distance_sq q (fst kp)))"

subsection \<open>Arguments, buffers and loops\<close>

text \<open>
  The call receives four arrays. Of \<^verbatim>\<open>known_coords\<close> the program reads the first
  dimension (the number of known points) and three coordinates per row; of
  \<^verbatim>\<open>known_values\<close> one value per known point; of \<^verbatim>\<open>interp_values\<close> the three
  dimensions and the data; of \<^verbatim>\<open>contribution_counter\<close> the data only. The buffers are
  contiguous arrays of \<^verbatim>\<open>double\<close>.
\<close>

record ndarray3 =
  dims :: "size_t \<times> size_t \<times> size_t"
  elems :: "real list"

record griddata_args =
  known_coords :: "point list"
  known_values :: "real list"
  interp_values :: ndarray3
  contribution_counter :: ndarray3

text \<open>
  What the program does not check is an error value of the model: a read or write past the
  end of an array, the use of a query result that does not exist, and the conversion of a
  radius that does not fit an \<^verbatim>\<open>int\<close>.
\<close>

datatype error = OutOfBounds | NullDereference | IntConversion

record buffers =
  interp_values_ptr :: "real list"
  contribution_counter_ptr :: "real list"

text \<open>A loop over a list of indices that stops at the first error.\<close>

fun for_each :: "'a list \<Rightarrow> ('a \<Rightarrow> 's \<Rightarrow> error + 's) \<Rightarrow> 's \<Rightarrow> error + 's" where
  "for_each [] body s = Inr s"
| "for_each (x # xs) body s =
     (case body x s of Inl e \<Rightarrow> Inl e | Inr s' \<Rightarrow> for_each xs body s')"

text \<open>\<^verbatim>\<open>for (std::size_t i = 0; i < ni; i++)\<close>\<close>

definition indices :: "size_t \<Rightarrow> size_t list" where
  "indices n = map of_nat [0 ..< unat n]"

text \<open>
  \<^verbatim>\<open>for (std::size_t i_roi = i_roi_min; i_roi <= i_roi_max; i_roi++)\<close>. The upper
  limit is at most \<open>ni - 1\<close> with \<open>0 < ni\<close>, hence below \<open>2 ^ 64 - 1\<close>, and the counter
  does not wrap.
\<close>

definition roi_indices :: "size_t \<Rightarrow> size_t \<Rightarrow> size_t list" where
  "roi_indices lo hi = map of_nat [unat lo ..< Suc (unat hi)]"

text \<open>\<^verbatim>\<open>nj*nk*i + nk*j + k\<close>, in \<^verbatim>\<open>std::size_t\<close>\<close>

definition indice :: "size_t \<Rightarrow> size_t \<Rightarrow> size_t \<Rightarrow> size_t \<Rightarrow> size_t \<Rightarrow> size_t" where
  "indice nj nk i j k = nj * nk * i + nk * j + k"

text \<open>
  \<^verbatim>\<open>double deltai_2 = (i - i_roi)*(i - i_roi)\<close>: the difference and the product are
  computed in \<^verbatim>\<open>std::size_t\<close> and the result is converted to \<^verbatim>\<open>double\<close>.
\<close>

definition delta_2 :: "size_t \<Rightarrow> size_t \<Rightarrow> real" where
  "delta_2 i i_roi = real (unat ((i - i_roi) * (i - i_roi)))"

definition distance_sq_to_roi_point ::
  "size_t \<times> size_t \<times> size_t \<Rightarrow> size_t \<times> size_t \<times> size_t \<Rightarrow> real" where
  "distance_sq_to_roi_point cell roi =
     (case cell of (i, j, k) \<Rightarrow> case roi of (i_roi, j_roi, k_roi) \<Rightarrow>
        delta_2 i i_roi + delta_2 j j_roi + delta_2 k k_roi)"

subsection \<open>The scatter pass\<close>

text \<open>
  \<^verbatim>\<open>interp_values_ptr[indice] += nearest_known_point->value;
  contribution_counter_ptr[indice] += 1;\<close>
\<close>

definition accumulate :: "nat \<Rightarrow> real \<Rightarrow> buffers \<Rightarrow> error + buffers" where
  "accumulate n v b =
     (if n < length (interp_values_ptr b) \<and> n < length (contribution_counter_ptr b)
      then Inr \<lparr>interp_values_ptr = (interp_values_ptr b)[n := interp_values_ptr b ! n + v],
               contribution_counter_ptr =
                 (contribution_counter_ptr b)[n := contribution_counter_ptr b ! n + 1]\<rparr>
      else Inl OutOfBounds)"

text \<open>\<^verbatim>\<open>auto query_point = Point(i, j, k)\<close>: the indices are converted to \<^verbatim>\<open>double\<close>.\<close>

definition query_point :: "size_t \<times> size_t \<times> size_t \<Rightarrow> point" where
  "query_point cell = (case cell of (i, j, k) \<Rightarrow> (real (unat i), real (unat j), real (unat k)))"

text \<open>The body of the three outer loops of the scatter pass, for the cell \<open>(i, j, k)\<close>.\<close>

definition scatter_cell ::
  "kdnode \<Rightarrow> size_t \<times> size_t \<times> size_t \<Rightarrow> size_t \<times> size_t \<times> size_t \<Rightarrow>
   buffers \<Rightarrow> error + buffers" where
  "scatter_cell tree shape cell b =
     (case shape of (ni, nj, nk) \<Rightarrow> case cell of (i, j, k) \<Rightarrow>
        (case nearest_iterative tree (query_point (i, j, k)) of
           None \<Rightarrow> Inl NullDereference
         | Some nearest_known_point \<Rightarrow>
             (case roi_radius (distance nearest_known_point) of
                None \<Rightarrow> Inl IntConversion
              | Some r \<Rightarrow>
                  for_each (roi_indices (roi_min i r ni) (roi_max i r ni)) (\<lambda>i_roi.
                  for_each (roi_indices (roi_min j r nj) (roi_max j r nj)) (\<lambda>j_roi.
                  for_each (roi_indices (roi_min k r nk) (roi_max k r nk)) (\<lambda>k_roi b'.
                    if distance_sq_to_roi_point (i, j, k) (i_roi, j_roi, k_roi)
                         \<le> distance nearest_known_point
                    then accumulate (unat (indice nj nk i j k)) (value nearest_known_point) b'
                    else Inr b'))) b)))"

text \<open>The three nested loops over the cells of the grid.\<close>

definition for_each_cell ::
  "size_t \<times> size_t \<times> size_t \<Rightarrow> (size_t \<times> size_t \<times> size_t \<Rightarrow> 's \<Rightarrow> error + 's) \<Rightarrow>
   's \<Rightarrow> error + 's" where
  "for_each_cell shape body =
     (case shape of (ni, nj, nk) \<Rightarrow>
        for_each (indices ni) (\<lambda>i.
        for_each (indices nj) (\<lambda>j.
        for_each (indices nk) (\<lambda>k. body (i, j, k)))))"

subsection \<open>The normalisation pass\<close>

text \<open>
  \<^verbatim>\<open>if (contribution_counter_ptr[indice] != 0) {
      interp_values_ptr[indice] /= contribution_counter_ptr[indice]; }\<close>
\<close>

definition normalize_cell ::
  "size_t \<times> size_t \<times> size_t \<Rightarrow> size_t \<times> size_t \<times> size_t \<Rightarrow> buffers \<Rightarrow> error + buffers" where
  "normalize_cell shape cell b =
     (case shape of (ni, nj, nk) \<Rightarrow> case cell of (i, j, k) \<Rightarrow>
        (let n = unat (indice nj nk i j k)
         in if n < length (contribution_counter_ptr b)
            then if contribution_counter_ptr b ! n \<noteq> 0
                 then if n < length (interp_values_ptr b)
                      then Inr (b\<lparr>interp_values_ptr :=
                             (interp_values_ptr b)
                               [n := interp_values_ptr b ! n / contribution_counter_ptr b ! n]\<rparr>)
                      else Inl OutOfBounds
                 else Inr b
            else Inl OutOfBounds))"

subsection \<open>The call\<close>

text \<open>
  The known points are copied into two vectors of \<open>num_known_points\<close> entries, added to
  the tree in their order, and the tree is built; then the scatter pass and the
  normalisation pass run over the grid of the shape of \<^verbatim>\<open>interp_values\<close>.
\<close>

definition output_buffers :: "griddata_args \<Rightarrow> buffers" where
  "output_buffers args =
     \<lparr>interp_values_ptr = elems (interp_values args),
      contribution_counter_ptr = elems (contribution_counter args)\<rparr>"

definition known_tree :: "griddata_args \<Rightarrow> kdnode" where
  "known_tree args =
     (let num_known_points = length (known_coords args);
          known_coords_vec = known_coords args;
          known_values_vec = take num_known_points (known_values args)
      in build (zip known_coords_vec known_values_vec))"

definition griddata :: "griddata_args \<Rightarrow> error + buffers" where
  "griddata args =
     (let num_known_points = length (known_coords args)
      in if length (known_values args) < num_known_points then Inl OutOfBounds
         else
           let tree = known_tree args;
               shape = dims (interp_values args);
               b = output_buffers args
           in case for_each_cell shape (scatter_cell tree shape) b of
                Inl e \<Rightarrow> Inl e
              | Inr b' \<Rightarrow> for_each_cell shape (normalize_cell shape) b')"

subsection \<open>The cells visited and the values written\<close>

text \<open>
  The cells of the grid in the order of the three nested loops, the candidate cells of the
  region of interest of a cell, and the writes of the scatter pass: the pairs of a flat
  index and a value that \<open>scatter_cell\<close> passes to \<open>accumulate\<close>, in the order of the
  program. \<open>values_added args n\<close> lists the values that the scatter pass adds at the flat
  index \<open>n\<close>.
\<close>

definition cells :: "size_t \<times> size_t \<times> size_t \<Rightarrow> (size_t \<times> size_t \<times> size_t) list" where
  "cells shape =
     (case shape of (ni, nj, nk) \<Rightarrow>
        List.product (indices ni) (List.product (indices nj) (indices nk)))"

definition roi_points ::
  "size_t \<times> size_t \<times> size_t \<Rightarrow> size_t \<times> size_t \<times> size_t \<Rightarrow> int \<Rightarrow>
   (size_t \<times> size_t \<times> size_t) list" where
  "roi_points shape cell r =
     (case shape of (ni, nj, nk) \<Rightarrow> case cell of (i, j, k) \<Rightarrow>
        List.product (roi_indices (roi_min i r ni) (roi_max i r ni))
          (List.product (roi_indices (roi_min j r nj) (roi_max j r nj))
             (roi_indices (roi_min k r nk) (roi_max k r nk))))"

definition cell_writes ::
  "kdnode \<Rightarrow> size_t \<times> size_t \<times> size_t \<Rightarrow> size_t \<times> size_t \<times> size_t \<Rightarrow> (nat \<times> real) list" where
  "cell_writes tree shape cell =
     (case shape of (ni, nj, nk) \<Rightarrow> case cell of (i, j, k) \<Rightarrow>
        (case nearest_iterative tree (query_point (i, j, k)) of
           None \<Rightarrow> []
         | Some nearest_known_point \<Rightarrow>
             (case roi_radius (distance nearest_known_point) of
                None \<Rightarrow> []
              | Some r \<Rightarrow>
                  map (\<lambda>roi. (unat (indice nj nk i j k), value nearest_known_point))
                    (filter (\<lambda>roi. distance_sq_to_roi_point (i, j, k) roi
                                      \<le> distance nearest_known_point)
                       (roi_points shape cell r)))))"

definition scatter_writes :: "kdnode \<Rightarrow> size_t \<times> size_t \<times> size_t \<Rightarrow> (nat \<times> real) list" where
  "scatter_writes tree shape = concat (map (cell_writes tree shape) (cells shape))"

definition values_added :: "griddata_args \<Rightarrow> nat \<Rightarrow> real list" where
  "values_added args n =
     map snd (filter (\<lambda>w. fst w = n)
       (scatter_writes (known_tree args) (dims (interp_values args))))"

text \<open>
  The extent of a grid, and the arguments whose two buffers have exactly that many
  entries. An array that fits the address space has fewer than \<open>2 ^ 64\<close> entries.
\<close>

definition extent :: "size_t \<times> size_t \<times> size_t \<Rightarrow> nat" where
  "extent shape = (case shape of (ni, nj, nk) \<Rightarrow> unat ni * unat nj * unat nk)"

definition buffers_fit :: "griddata_args \<Rightarrow> bool" where
  "buffers_fit args =
     (extent (dims (interp_values args)) < 2 ^ 64 \<and>
      length (elems (interp_values args)) = extent (dims (interp_values args)) \<and>
      length (elems (contribution_counter args)) = extent (dims (interp_values args)))"

text \<open>The flat index of a cell as a position in the buffers.\<close>

definition flat_index :: "size_t \<times> size_t \<times> size_t \<Rightarrow> size_t \<times> size_t \<times> size_t \<Rightarrow> nat" where
  "flat_index shape cell =
     (case shape of (ni, nj, nk) \<Rightarrow> case cell of (i, j, k) \<Rightarrow> unat (indice nj nk i j k))"

text \<open>The value of an accumulator entry \<open>a\<close> with counter \<open>c\<close> after the normalisation.\<close>

definition normalized :: "real \<Rightarrow> real \<Rightarrow> real" where
  "normalized a c = (if c \<noteq> 0 then a / c else a)"

text \<open>Buffers of \<open>n\<close> entries each.\<close>

definition sized :: "nat \<Rightarrow> buffers \<Rightarrow> bool" where
  "sized n b = (length (interp_values_ptr b) = n \<and> length (contribution_counter_ptr b) = n)"

text \<open>The example scenario of the specification.\<close>

definition example_args :: griddata_args where
  "example_args =
     \<lparr>known_coords = [(0, 0, 0), (5, 5, 5)], known_values = [10, 20],
      interp_values = \<lparr>dims = (6, 6, 6), elems = replicate 216 0\<rparr>,
      contribution_counter = \<lparr>dims = (6, 6, 6), elems = replicate 216 0\<rparr>\<rparr>"

section \<open>Properties\<close>

subsection \<open>The spatial index against the linear scan\<close>

lemma set_build_node: "set_tree (build_node d ps) = set ps"
proof (induction d ps rule: build_node.induct)
  case (1 depth)
  then show ?case by simp
next
  case (2 depth p ps)
  define axis where "axis = depth mod 3"
  define sorted where "sorted = sort_key (\<lambda>kp. coord axis (fst kp)) (p # ps)"
  define m where "m = length (p # ps) div 2"
  have len: "length sorted = length (p # ps)" by (simp add: sorted_def)
  have m: "m < length sorted" using len by (simp add: m_def)
  have split: "sorted = take m sorted @ sorted ! m # drop (Suc m) sorted"
    using m by (rule id_take_nth_drop)
  have l: "set_tree (build_node (Suc depth) (take m sorted)) = set (take m sorted)"
    using "2.IH"(1) [OF axis_def sorted_def m_def] .
  have r: "set_tree (build_node (Suc depth) (drop (Suc m) sorted)) = set (drop (Suc m) sorted)"
    using "2.IH"(2) [OF axis_def sorted_def m_def] .
  have "set_tree (build_node depth (p # ps)) =
      insert (sorted ! m) (set (take m sorted) \<union> set (drop (Suc m) sorted))"
    using l r by (simp add: Let_def axis_def sorted_def m_def del: sort_key_simps)
  also have "\<dots> = set (take m sorted @ sorted ! m # drop (Suc m) sorted)" by auto
  also have "\<dots> = set sorted" using split by simp
  also have "\<dots> = set (p # ps)" by (simp add: sorted_def del: sort_key_simps)
  finally show ?case .
qed

lemma invar_build_node: "invar (build_node d ps)"
proof (induction d ps rule: build_node.induct)
  case (1 depth)
  then show ?case by simp
next
  case (2 depth p ps)
  define axis where "axis = depth mod 3"
  define key where "key = (\<lambda>kp :: point \<times> real. coord axis (fst kp))"
  define sorted where "sorted = sort_key key (p # ps)"
  define m where "m = length (p # ps) div 2"
  have sorted_def': "sorted = sort_key (\<lambda>kp. coord axis (fst kp)) (p # ps)"
    by (simp add: sorted_def key_def)
  have len: "length sorted = length (p # ps)" by (simp add: sorted_def)
  have m: "m < length sorted" using len by (simp add: m_def)
  have split: "sorted = take m sorted @ sorted ! m # drop (Suc m) sorted"
    using m by (rule id_take_nth_drop)
  have "sorted_wrt (\<lambda>a b. key a \<le> key b) sorted"
    unfolding sorted_def using sorted_sort_key [of key "p # ps"] by (simp add: sorted_map del: sort_key_simps)
  then have sw: "sorted_wrt (\<lambda>a b. key a \<le> key b) (take m sorted @ sorted ! m # drop (Suc m) sorted)"
    using split by simp
  have lo: "\<forall>x \<in> set (take m sorted). key x \<le> key (sorted ! m)"
    using sw by (simp add: sorted_wrt_append)
  have hi: "\<forall>x \<in> set (drop (Suc m) sorted). key (sorted ! m) \<le> key x"
    using sw by (simp add: sorted_wrt_append)
  have l: "invar (build_node (Suc depth) (take m sorted))"
    using "2.IH"(1) [OF axis_def sorted_def' m_def] .
  have r: "invar (build_node (Suc depth) (drop (Suc m) sorted))"
    using "2.IH"(2) [OF axis_def sorted_def' m_def] .
  have eq: "build_node depth (p # ps) =
      Node (build_node (Suc depth) (take m sorted)) (sorted ! m) axis
           (build_node (Suc depth) (drop (Suc m) sorted))"
    by (simp add: Let_def axis_def sorted_def' m_def del: sort_key_simps)
  show ?case
    unfolding eq using l r lo hi by (simp add: set_build_node key_def)
qed

lemma is_best_closer:
  assumes "is_best q S best"
  shows "is_best q (insert kp S) (closer q kp best)"
  using assms by (cases best) (auto simp: is_best_def closer_def Let_def)

lemma is_best_fold_closer:
  "is_best q S best \<Longrightarrow> is_best q (S \<union> set kps) (fold (closer q) kps best)"
proof (induction kps arbitrary: S best)
  case Nil
  then show ?case by simp
next
  case (Cons kp kps)
  from Cons.prems have "is_best q (insert kp S) (closer q kp best)"
    by (rule is_best_closer)
  from Cons.IH [OF this] show ?case by simp
qed

lemma coord_sq_le_distance_sq:
  "(coord axis q - coord axis p) * (coord axis q - coord axis p) \<le> distance_sq q p"
proof -
  obtain qx qy qz where q: "q = (qx, qy, qz)" by (cases q)
  obtain px py pz where p: "p = (px, py, pz)" by (cases p)
  have sq: "\<And>a :: real. 0 \<le> a * a" by simp
  show ?thesis
  proof (cases axis)
    case 0
    then show ?thesis using sq [of "qy - py"] sq [of "qz - pz"]
      by (simp add: q p)
  next
    case (Suc n)
    show ?thesis
    proof (cases n)
      case 0
      then show ?thesis using Suc sq [of "qx - px"] sq [of "qz - pz"]
        by (simp add: q p)
    next
      case (Suc n')
      then show ?thesis using \<open>axis = Suc n\<close> sq [of "qx - px"] sq [of "qy - py"]
        by (simp add: q p)
    qed
  qed
qed

lemma is_best_extend:
  assumes "is_best q S (Some b)" and "\<forall>kp \<in> T. distance b \<le> distance_sq q (fst kp)"
  shows "is_best q (S \<union> T) (Some b)"
  using assms by (auto simp: is_best_def)

lemma prune_far:
  assumes pr: "prune dx (Some b)"
    and far: "\<forall>kp \<in> T. dx * dx \<le> distance_sq q (fst kp)"
  shows "\<forall>kp \<in> T. distance b \<le> distance_sq q (fst kp)"
  using assms by (fastforce simp: prune_def)

lemma is_best_nearest_node:
  "invar t \<Longrightarrow> is_best q S best \<Longrightarrow> is_best q (S \<union> set_tree t) (nearest_node q t best)"
proof (induction t arbitrary: S best)
  case Leaf
  then show ?case by simp
next
  case (Node l kp axis r)
  define dx where "dx = coord axis q - coord axis (fst kp)"
  define near where "near = (if dx \<le> 0 then l else r)"
  define far where "far = (if dx \<le> 0 then r else l)"
  define best' where "best' = nearest_node q near (closer q kp best)"
  have res: "nearest_node q (Node l kp axis r) best =
      (if prune dx best' then best' else nearest_node q far best')"
    by (simp add: Let_def dx_def near_def far_def best'_def)
  have inv_near: "invar near" and inv_far: "invar far"
    using Node.prems(1) by (simp_all add: near_def far_def)
  have sets: "set_tree (Node l kp axis r) = insert kp (set_tree near \<union> set_tree far)"
    by (auto simp: near_def far_def)
  have b0: "is_best q (insert kp S) (closer q kp best)"
    using Node.prems(2) by (rule is_best_closer)
  have ih: "is_best q (S0 \<union> set_tree t') (nearest_node q t' b')"
    if "t' = l \<or> t' = r" and "invar t'" and "is_best q S0 b'" for t' S0 b'
    using that Node.IH by blast
  have near_lr: "near = l \<or> near = r" and far_lr: "far = l \<or> far = r"
    by (simp_all add: near_def far_def)
  have IHnear: "is_best q (insert kp S \<union> set_tree near) best'"
    unfolding best'_def using near_lr inv_near b0 by (rule ih)
  have far_plane: "\<forall>p \<in> set_tree far. dx * dx \<le> distance_sq q (fst p)"
  proof
    fix p assume p: "p \<in> set_tree far"
    have "\<bar>dx\<bar> \<le> \<bar>coord axis q - coord axis (fst p)\<bar>"
    proof (cases "dx \<le> 0")
      case True
      then have "coord axis (fst kp) \<le> coord axis (fst p)"
        using p Node.prems(1) by (simp add: far_def)
      then show ?thesis using True by (simp add: dx_def)
    next
      case False
      then have "coord axis (fst p) \<le> coord axis (fst kp)"
        using p Node.prems(1) by (simp add: far_def)
      then show ?thesis using False by (simp add: dx_def)
    qed
    then have "dx * dx \<le> (coord axis q - coord axis (fst p)) * (coord axis q - coord axis (fst p))"
      by (metis abs_le_square_iff power2_eq_square)
    also have "\<dots> \<le> distance_sq q (fst p)"
      by (rule coord_sq_le_distance_sq)
    finally show "dx * dx \<le> distance_sq q (fst p)" .
  qed
  show ?case
  proof (cases "prune dx best'")
    case True
    then obtain b where b: "best' = Some b" by (cases best') (simp_all add: prune_def)
    have "\<forall>p \<in> set_tree far. distance b \<le> distance_sq q (fst p)"
      using True far_plane unfolding b by (rule prune_far)
    with IHnear have "is_best q ((insert kp S \<union> set_tree near) \<union> set_tree far) (Some b)"
      unfolding b by (rule is_best_extend)
    then show ?thesis unfolding res sets using True by (simp add: b Un_assoc)
  next
    case False
    have "is_best q ((insert kp S \<union> set_tree near) \<union> set_tree far) (nearest_node q far best')"
      using far_lr inv_far IHnear by (rule ih)
    then show ?thesis unfolding res sets using False by (simp add: Un_assoc)
  qed
qed

lemma is_best_nearest_iterative: "is_best q (set known) (nearest_iterative (build known) q)"
proof -
  have "is_best q {} None" by (simp add: is_best_def)
  with invar_build_node [of 0 known]
  have "is_best q ({} \<union> set_tree (build_node 0 known)) (nearest_node q (build_node 0 known) None)"
    by (rule is_best_nearest_node)
  then show ?thesis by (simp add: nearest_iterative_def build_def set_build_node)
qed

lemma is_best_linear_scan: "is_best q (set known) (linear_scan q known)"
proof -
  have "is_best q {} None" by (simp add: is_best_def)
  then have "is_best q ({} \<union> set known) (fold (closer q) known None)"
    by (rule is_best_fold_closer)
  then show ?thesis by (simp add: linear_scan_def)
qed

lemma is_best_Some:
  assumes "is_best q (set known) best" and "known \<noteq> []"
  shows "\<exists>b. best = Some b \<and> (point b, value b) \<in> set known \<and>
           distance b = distance_sq q (point b) \<and>
           distance b = Min ((\<lambda>kp. distance_sq q (fst kp)) ` set known)"
proof (cases best)
  case None
  with assms show ?thesis by (simp add: is_best_def)
next
  case (Some b)
  let ?D = "(\<lambda>kp. distance_sq q (fst kp)) ` set known"
  from assms(1) Some have mem: "(point b, value b) \<in> set known"
    and d: "distance b = distance_sq q (point b)"
    and le: "\<forall>kp \<in> set known. distance b \<le> distance_sq q (fst kp)"
    by (auto simp: is_best_def)
  have "distance b \<in> ?D" using mem d by force
  moreover have "\<forall>x \<in> ?D. distance b \<le> x" using le by auto
  ultimately have "Min ?D = distance b"
    by (intro Min_eqI) auto
  with Some mem d show ?thesis by simp
qed

text \<open>
  C9. For a non-empty list of known points and any query point, the nearest-neighbour
  query on the built index returns a known point, with its squared distance to the query,
  and that squared distance is the one the exhaustive linear scan finds: the minimum of the
  squared distances of the query to the known points.
\<close>

theorem nearest_iterative_linear_scan:
  assumes "known \<noteq> []"
  shows "\<exists>r s. nearest_iterative (build known) q = Some r \<and> linear_scan q known = Some s \<and>
           (point r, value r) \<in> set known \<and> distance r = distance_sq q (point r) \<and>
           distance r = distance s \<and>
           distance s = Min ((\<lambda>kp. distance_sq q (fst kp)) ` set known)"
proof -
  from is_best_Some [OF is_best_nearest_iterative assms, of q]
  obtain r where r: "nearest_iterative (build known) q = Some r"
    "(point r, value r) \<in> set known" "distance r = distance_sq q (point r)"
    "distance r = Min ((\<lambda>kp. distance_sq q (fst kp)) ` set known)"
    by blast
  from is_best_Some [OF is_best_linear_scan assms, of q]
  obtain s where s: "linear_scan q known = Some s"
    "distance s = Min ((\<lambda>kp. distance_sq q (fst kp)) ` set known)"
    by blast
  from r s show ?thesis by simp
qed

theorem nearest_iterative_linear_scan_witness:
  "[((0, 0, 0), 10), ((5, 5, 5), 20 :: real)] \<noteq> [] \<and>
   (\<exists>r s. nearest_iterative (build [((0, 0, 0), 10), ((5, 5, 5), 20)]) (1, 0, 0) = Some r \<and>
      linear_scan (1, 0, 0) [((0, 0, 0), 10), ((5, 5, 5), 20)] = Some s \<and>
      (point r, value r) \<in> set [((0, 0, 0), 10), ((5, 5, 5), 20)] \<and>
      distance r = distance_sq (1, 0, 0) (point r) \<and> distance r = distance s \<and>
      distance s = Min ((\<lambda>kp. distance_sq (1, 0, 0) (fst kp)) `
        set [((0, 0, 0), 10), ((5, 5, 5), 20)]))"
  using nearest_iterative_linear_scan [of "[((0, 0, 0), 10), ((5, 5, 5), 20)]" "(1, 0, 0)"]
  by simp

subsection \<open>Loops as lists of cells and of writes\<close>

lemma for_each_append:
  "for_each (xs @ ys) body s =
     (case for_each xs body s of Inl e \<Rightarrow> Inl e | Inr s' \<Rightarrow> for_each ys body s')"
  by (induction xs arbitrary: s) (auto split: sum.splits)

lemma for_each_map: "for_each (map g xs) body s = for_each xs (\<lambda>x. body (g x)) s"
  by (induction xs arbitrary: s) (auto split: sum.splits)

lemma for_each_product:
  "for_each xs (\<lambda>x. for_each ys (\<lambda>y. body (x, y))) s = for_each (List.product xs ys) body s"
  by (induction xs arbitrary: s) (auto simp: for_each_append for_each_map split: sum.splits)

lemma for_each_product3:
  "for_each xs (\<lambda>x. for_each ys (\<lambda>y. for_each zs (\<lambda>z. body (x, y, z)))) s =
   for_each (List.product xs (List.product ys zs)) body s"
proof (induction xs arbitrary: s)
  case Nil
  then show ?case by simp
next
  case (Cons x xs)
  have inner: "for_each ys (\<lambda>y. for_each zs (\<lambda>z. body (x, y, z))) s =
      for_each (map (Pair x) (List.product ys zs)) body s"
    using for_each_product [of ys zs "\<lambda>yz. body (x, yz)" s] by (simp add: for_each_map)
  show ?case
    by (simp add: for_each_append inner Cons.IH split: sum.splits)
qed

lemma for_each_cell_cells: "for_each_cell shape body s = for_each (cells shape) body s"
  by (cases shape) (simp add: for_each_cell_def cells_def for_each_product3)

text \<open>The conditional write of the innermost loop, as a loop over a filtered list.\<close>

lemma for_each_filter_accumulate:
  "for_each xs (\<lambda>x b. if P x then accumulate n v b else Inr b) s =
   for_each (map (\<lambda>x. (n, v)) (filter P xs)) (\<lambda>w. accumulate (fst w) (snd w)) s"
  by (induction xs arbitrary: s) (auto split: sum.splits)

lemma scatter_cell_eq:
  "scatter_cell tree (ni, nj, nk) (i, j, k) b =
     (case nearest_iterative tree (query_point (i, j, k)) of
        None \<Rightarrow> Inl NullDereference
      | Some p \<Rightarrow>
          (case roi_radius (distance p) of
             None \<Rightarrow> Inl IntConversion
           | Some r \<Rightarrow>
               for_each (cell_writes tree (ni, nj, nk) (i, j, k))
                 (\<lambda>w. accumulate (fst w) (snd w)) b))"
proof (cases "nearest_iterative tree (query_point (i, j, k))")
  case None
  then show ?thesis by (simp add: scatter_cell_def)
next
  case (Some p)
  show ?thesis
  proof (cases "roi_radius (distance p)")
    case None
    with Some show ?thesis by (simp add: scatter_cell_def)
  next
    case r: (Some r)
    let ?is = "roi_indices (roi_min i r ni) (roi_max i r ni)"
    let ?js = "roi_indices (roi_min j r nj) (roi_max j r nj)"
    let ?ks = "roi_indices (roi_min k r nk) (roi_max k r nk)"
    let ?body = "\<lambda>roi b'. if distance_sq_to_roi_point (i, j, k) roi \<le> distance p
        then accumulate (unat (indice nj nk i j k)) (value p) b' else Inr b'"
    have "scatter_cell tree (ni, nj, nk) (i, j, k) b =
        for_each ?is (\<lambda>i_roi. for_each ?js (\<lambda>j_roi. for_each ?ks (\<lambda>k_roi.
          ?body (i_roi, j_roi, k_roi)))) b"
      by (simp add: scatter_cell_def Some r)
    also have "\<dots> = for_each (List.product ?is (List.product ?js ?ks)) ?body b"
      by (rule for_each_product3)
    also have "\<dots> = for_each (cell_writes tree (ni, nj, nk) (i, j, k))
        (\<lambda>w. accumulate (fst w) (snd w)) b"
      by (simp add: for_each_filter_accumulate cell_writes_def roi_points_def Some r)
    finally show ?thesis by (simp add: Some r)
  qed
qed

lemma scatter_cell_writes:
  assumes "scatter_cell tree shape cell b = Inr b'"
  shows "for_each (cell_writes tree shape cell) (\<lambda>w. accumulate (fst w) (snd w)) b = Inr b'"
proof -
  obtain ni nj nk where shape: "shape = (ni, nj, nk)" by (cases shape)
  obtain i j k where cell: "cell = (i, j, k)" by (cases cell)
  from assms show ?thesis
    unfolding shape cell scatter_cell_eq by (simp split: option.splits)
qed

lemma for_each_concat_writes:
  assumes "for_each cs body b = Inr b'"
    and "\<And>c s s'. body c s = Inr s' \<Longrightarrow> for_each (f c) wr s = Inr s'"
  shows "for_each (concat (map f cs)) wr b = Inr b'"
  using assms(1)
proof (induction cs arbitrary: b)
  case Nil
  then show ?case by simp
next
  case (Cons c cs)
  from Cons.prems obtain s where s: "body c b = Inr s" and rest: "for_each cs body s = Inr b'"
    by (auto split: sum.splits)
  from s have "for_each (f c) wr b = Inr s" by (rule assms(2))
  moreover from rest have "for_each (concat (map f cs)) wr s = Inr b'" by (rule Cons.IH)
  ultimately show ?case by (simp add: for_each_append)
qed

lemma scatter_writes_run:
  assumes "for_each_cell shape (scatter_cell tree shape) b = Inr b'"
  shows "for_each (scatter_writes tree shape) (\<lambda>w. accumulate (fst w) (snd w)) b = Inr b'"
  unfolding scatter_writes_def
  using assms [unfolded for_each_cell_cells] scatter_cell_writes
  by (rule for_each_concat_writes)

text \<open>The effect of a list of writes on the buffers.\<close>

lemma for_each_accumulate_effect:
  assumes "for_each ws (\<lambda>w. accumulate (fst w) (snd w)) b = Inr b'"
  shows "length (interp_values_ptr b') = length (interp_values_ptr b) \<and>
         length (contribution_counter_ptr b') = length (contribution_counter_ptr b) \<and>
         (\<forall>w \<in> set ws. fst w < length (interp_values_ptr b) \<and>
                         fst w < length (contribution_counter_ptr b)) \<and>
         (\<forall>n. n < length (interp_values_ptr b) \<longrightarrow> interp_values_ptr b' ! n =
            interp_values_ptr b ! n + sum_list (map snd (filter (\<lambda>w. fst w = n) ws))) \<and>
         (\<forall>n. n < length (contribution_counter_ptr b) \<longrightarrow> contribution_counter_ptr b' ! n =
            contribution_counter_ptr b ! n + real (length (filter (\<lambda>w. fst w = n) ws)))"
  using assms
proof (induction ws arbitrary: b)
  case Nil
  then show ?case by simp
next
  case (Cons w ws)
  from Cons.prems obtain s where s: "accumulate (fst w) (snd w) b = Inr s"
    and rest: "for_each ws (\<lambda>w. accumulate (fst w) (snd w)) s = Inr b'"
    by (auto split: sum.splits)
  from s have inb: "fst w < length (interp_values_ptr b)"
      "fst w < length (contribution_counter_ptr b)"
    and sv: "interp_values_ptr s = (interp_values_ptr b)[fst w := interp_values_ptr b ! fst w + snd w]"
    and sc: "contribution_counter_ptr s =
        (contribution_counter_ptr b)[fst w := contribution_counter_ptr b ! fst w + 1]"
    by (auto simp: accumulate_def split: if_splits)
  note IH = Cons.IH [OF rest]
  show ?case
    using IH inb by (auto simp: sv sc nth_list_update)
qed

subsection \<open>The flat index\<close>

lemma flat_index_bound:
  fixes I J K NI NJ NK :: nat
  assumes "I < NI" "J < NJ" "K < NK"
  shows "NJ * NK * I + NK * J + K < NI * NJ * NK"
proof -
  have "NK * J + K < NK * Suc J" using assms(3) by simp
  also have "\<dots> \<le> NK * NJ" using assms(2) by (intro mult_le_mono2) simp
  finally have "NJ * NK * I + (NK * J + K) < NJ * NK * I + NK * NJ" by simp
  also have "\<dots> = NJ * NK * Suc I" by (simp add: algebra_simps)
  also have "\<dots> \<le> NJ * NK * NI" using assms(1) by (intro mult_le_mono2) simp
  finally show ?thesis by (simp add: algebra_simps)
qed

lemma flat_index_inj:
  fixes I J K I' J' K' NJ NK :: nat
  assumes eq: "NJ * NK * I + NK * J + K = NJ * NK * I' + NK * J' + K'"
    and "J < NJ" "J' < NJ" "K < NK" "K' < NK"
  shows "I = I' \<and> J = J' \<and> K = K'"
proof -
  have e: "K + NK * (J + NJ * I) = K' + NK * (J' + NJ * I')"
    using eq by (simp add: algebra_simps)
  have "(K + NK * (J + NJ * I)) mod NK = K" using assms(4) by simp
  moreover have "(K' + NK * (J' + NJ * I')) mod NK = K'" using assms(5) by simp
  ultimately have K: "K = K'" using e by simp
  have "(K + NK * (J + NJ * I)) div NK = J + NJ * I" using assms(4) by simp
  moreover have "(K' + NK * (J' + NJ * I')) div NK = J' + NJ * I'" using assms(5) by simp
  ultimately have e2: "J + NJ * I = J' + NJ * I'" using e by simp
  have "(J + NJ * I) mod NJ = J" using assms(2) by simp
  moreover have "(J' + NJ * I') mod NJ = J'" using assms(3) by simp
  ultimately have J: "J = J'" using e2 by simp
  have "(J + NJ * I) div NJ = I" using assms(2) by simp
  moreover have "(J' + NJ * I') div NJ = I'" using assms(3) by simp
  ultimately have "I = I'" using e2 by simp
  with J K show ?thesis by simp
qed

lemma unat_indice:
  assumes ext: "extent (ni, nj, nk) < 2 ^ 64"
    and "i < ni" "j < nj" "k < nk"
  shows "unat (indice nj nk i j k) = unat nj * unat nk * unat i + unat nk * unat j + unat k"
    and "unat (indice nj nk i j k) < extent (ni, nj, nk)"
proof -
  have I: "unat i < unat ni" and J: "unat j < unat nj" and K: "unat k < unat nk"
    using assms(2-4) by (simp_all add: word_less_nat_alt)
  have bound: "unat nj * unat nk * unat i + unat nk * unat j + unat k
      < unat ni * unat nj * unat nk"
    using I J K by (rule flat_index_bound)
  then have lt: "unat nj * unat nk * unat i + unat nk * unat j + unat k < 2 ^ 64"
    using ext by (simp add: extent_def)
  have njnk: "unat (nj * nk) = unat nj * unat nk"
  proof -
    have "unat nj * unat nk \<le> unat ni * (unat nj * unat nk)"
      using I by (cases "unat ni") simp_all
    moreover have "unat ni * (unat nj * unat nk) < 2 ^ 64"
      using ext by (simp add: extent_def mult.assoc)
    ultimately have "unat nj * unat nk < 2 ^ 64"
      by (rule le_less_trans)
    then show ?thesis by (simp add: unat_mult_lem [THEN iffD1])
  qed
  have a: "unat (nj * nk * i) = unat nj * unat nk * unat i"
  proof -
    have "unat (nj * nk) * unat i < 2 ^ 64" using lt njnk by simp
    then have "unat (nj * nk * i) = unat (nj * nk) * unat i"
      by (simp add: unat_mult_lem [THEN iffD1])
    then show ?thesis by (simp add: njnk)
  qed
  have b: "unat (nk * j) = unat nk * unat j"
  proof -
    have "unat nk * unat j < 2 ^ 64" using lt by simp
    then show ?thesis by (simp add: unat_mult_lem [THEN iffD1])
  qed
  have c: "unat (nj * nk * i + nk * j) = unat nj * unat nk * unat i + unat nk * unat j"
  proof -
    have "unat (nj * nk * i) + unat (nk * j) < 2 ^ 64" using lt a b by simp
    then have "unat (nj * nk * i + nk * j) = unat (nj * nk * i) + unat (nk * j)"
      by (simp add: unat_add_lem [THEN iffD1])
    then show ?thesis by (simp add: a b)
  qed
  have "unat (nj * nk * i + nk * j) + unat k < 2 ^ 64" using lt c by simp
  then have "unat (nj * nk * i + nk * j + k) = unat (nj * nk * i + nk * j) + unat k"
    by (simp add: unat_add_lem [THEN iffD1])
  then show "unat (indice nj nk i j k) =
      unat nj * unat nk * unat i + unat nk * unat j + unat k"
    by (simp add: indice_def c)
  with bound show "unat (indice nj nk i j k) < extent (ni, nj, nk)"
    by (simp add: extent_def)
qed

lemma indice_inj:
  assumes ext: "extent (ni, nj, nk) < 2 ^ 64"
    and c: "i < ni" "j < nj" "k < nk" and c': "i' < ni" "j' < nj" "k' < nk"
    and eq: "unat (indice nj nk i j k) = unat (indice nj nk i' j' k')"
  shows "i = i' \<and> j = j' \<and> k = k'"
proof -
  have "unat nj * unat nk * unat i + unat nk * unat j + unat k =
      unat nj * unat nk * unat i' + unat nk * unat j' + unat k'"
    using eq unat_indice(1) [OF ext c] unat_indice(1) [OF ext c'] by simp
  moreover have "unat j < unat nj" "unat j' < unat nj" "unat k < unat nk" "unat k' < unat nk"
    using c c' by (simp_all add: word_less_nat_alt)
  ultimately have "unat i = unat i' \<and> unat j = unat j' \<and> unat k = unat k'"
    by (rule flat_index_inj)
  then show ?thesis by (simp add: word_unat_eq_iff)
qed

lemma set_indices: "set (indices n) = {w. w < n}"
proof (rule set_eqI)
  fix w :: size_t
  show "w \<in> set (indices n) \<longleftrightarrow> w \<in> {w. w < n}"
  proof
    assume "w \<in> set (indices n)"
    then obtain m where m: "m < unat n" and w: "w = of_nat m" by (auto simp: indices_def)
    have "m \<le> unat n" using m by simp
    then have "unat w = m" unfolding w by (rule le_unat_uoi)
    then show "w \<in> {w. w < n}" using m by (simp add: word_less_nat_alt)
  next
    assume "w \<in> {w. w < n}"
    then have "unat w < unat n" by (simp add: word_less_nat_alt)
    moreover have "w = of_nat (unat w)" by simp
    ultimately show "w \<in> set (indices n)" unfolding indices_def by (metis atLeast0LessThan imageI lessThan_iff set_map set_upt)
  qed
qed

lemma distinct_indices: "distinct (indices n)"
proof -
  have "inj_on (of_nat :: nat \<Rightarrow> size_t) (set [0 ..< unat n])"
  proof (rule inj_onI)
    fix x y assume x: "x \<in> set [0 ..< unat n]" and y: "y \<in> set [0 ..< unat n]"
      and eq: "(of_nat x :: size_t) = of_nat y"
    have "x \<le> unat n" "y \<le> unat n" using x y by simp_all
    then have ux: "unat (of_nat x :: size_t) = x" and uy: "unat (of_nat y :: size_t) = y"
      by (simp_all add: le_unat_uoi [of _ n])
    from eq have "unat (of_nat x :: size_t) = unat (of_nat y :: size_t)"
      by (rule arg_cong)
    then show "x = y" by (simp only: ux uy)
  qed
  then show ?thesis by (simp add: indices_def distinct_map)
qed

lemma set_cells: "(i, j, k) \<in> set (cells (ni, nj, nk)) \<longleftrightarrow> i < ni \<and> j < nj \<and> k < nk"
  by (simp add: cells_def set_indices)

lemma distinct_cells: "distinct (cells shape)"
  by (cases shape) (simp add: cells_def distinct_product distinct_indices)

subsection \<open>The writes of one cell\<close>

lemma cell_writes_index:
  "w \<in> set (cell_writes tree (ni, nj, nk) (i, j, k)) \<Longrightarrow> fst w = unat (indice nj nk i j k)"
  by (auto simp: cell_writes_def split: option.splits)

lemma concat_map_single:
  assumes "distinct xs" and "x \<in> set xs" and "\<forall>y \<in> set xs. y \<noteq> x \<longrightarrow> g y = []"
  shows "concat (map g xs) = g x"
  using assms
proof (induction xs)
  case Nil
  then show ?case by simp
next
  case (Cons a xs)
  show ?case
  proof (cases "a = x")
    case True
    then have "\<forall>y \<in> set xs. g y = []" using Cons.prems by auto
    then have "concat (map g xs) = []" by simp
    with True show ?thesis by simp
  next
    case False
    then have "g a = []" and "x \<in> set xs" using Cons.prems by auto
    moreover have "concat (map g xs) = g x"
      using Cons.IH Cons.prems \<open>x \<in> set xs\<close> by simp
    ultimately show ?thesis by simp
  qed
qed

lemma filter_scatter_writes:
  assumes ext: "extent (ni, nj, nk) < 2 ^ 64" and c: "i < ni" "j < nj" "k < nk"
  shows "filter (\<lambda>w. fst w = unat (indice nj nk i j k)) (scatter_writes tree (ni, nj, nk)) =
         cell_writes tree (ni, nj, nk) (i, j, k)"
proof -
  let ?P = "\<lambda>w :: nat \<times> real. fst w = unat (indice nj nk i j k)"
  let ?g = "\<lambda>c. filter ?P (cell_writes tree (ni, nj, nk) c)"
  have mem: "(i, j, k) \<in> set (cells (ni, nj, nk))" using c by (simp add: set_cells)
  have other: "\<forall>y \<in> set (cells (ni, nj, nk)). y \<noteq> (i, j, k) \<longrightarrow> ?g y = []"
  proof (intro ballI impI)
    fix y assume y: "y \<in> set (cells (ni, nj, nk))" and ne: "y \<noteq> (i, j, k)"
    obtain i' j' k' where y': "y = (i', j', k')" by (cases y)
    from y have c': "i' < ni" "j' < nj" "k' < nk" by (simp_all add: y' set_cells)
    have "unat (indice nj nk i' j' k') \<noteq> unat (indice nj nk i j k)"
      using indice_inj [OF ext c' c] ne y' by auto
    then have "\<forall>w \<in> set (cell_writes tree (ni, nj, nk) y). \<not> ?P w"
      using cell_writes_index [of _ tree ni nj nk i' j' k'] by (auto simp: y')
    then show "?g y = []" by (simp add: filter_empty_conv)
  qed
  have "filter ?P (scatter_writes tree (ni, nj, nk)) = concat (map ?g (cells (ni, nj, nk)))"
    by (simp add: scatter_writes_def filter_concat comp_def)
  also have "\<dots> = ?g (i, j, k)"
    using distinct_cells mem other by (rule concat_map_single)
  also have "\<dots> = cell_writes tree (ni, nj, nk) (i, j, k)"
    using cell_writes_index [of _ tree ni nj nk i j k] by (simp add: filter_id_conv)
  finally show ?thesis .
qed

text \<open>Loops that keep an invariant.\<close>

lemma for_each_succeeds:
  assumes "\<And>x s. x \<in> set xs \<Longrightarrow> I s \<Longrightarrow> \<exists>s'. body x s = Inr s' \<and> I s'"
    and "I s"
  shows "\<exists>s'. for_each xs body s = Inr s' \<and> I s'"
  using assms
proof (induction xs arbitrary: s)
  case Nil
  then show ?case by simp
next
  case (Cons x xs)
  from Cons.prems(1) [of x s] Cons.prems(2)
  obtain s1 where s1: "body x s = Inr s1" "I s1" by auto
  have "\<exists>s'. for_each xs body s1 = Inr s' \<and> I s'"
    using Cons.prems(1) s1(2) by (intro Cons.IH) auto
  with s1(1) show ?case by simp
qed

lemma for_each_never:
  assumes "\<And>x s. x \<in> set xs \<Longrightarrow> I s \<Longrightarrow>
      body x s \<noteq> Inl e \<and> (\<forall>s'. body x s = Inr s' \<longrightarrow> I s')"
    and "I s"
  shows "for_each xs body s \<noteq> Inl e \<and> (\<forall>s'. for_each xs body s = Inr s' \<longrightarrow> I s')"
  using assms
proof (induction xs arbitrary: s)
  case Nil
  then show ?case by simp
next
  case (Cons x xs)
  note step = Cons.prems(1) [of x s, simplified, OF Cons.prems(2)]
  show ?case
  proof (cases "body x s")
    case (Inl e')
    with step show ?thesis by simp
  next
    case (Inr s1)
    with step have "I s1" by simp
    then have "for_each xs body s1 \<noteq> Inl e \<and> (\<forall>s'. for_each xs body s1 = Inr s' \<longrightarrow> I s')"
      using Cons.prems(1) by (intro Cons.IH) auto
    with Inr show ?thesis by simp
  qed
qed

lemma accumulate_sized:
  "sized N b \<Longrightarrow> n < N \<Longrightarrow> \<exists>b'. accumulate n v b = Inr b' \<and> sized N b'"
  by (simp add: accumulate_def sized_def)

lemma writes_succeed:
  assumes "sized N b" and "\<forall>w \<in> set ws. fst w < N"
  shows "\<exists>b'. for_each ws (\<lambda>w. accumulate (fst w) (snd w)) b = Inr b' \<and> sized N b'"
  using assms accumulate_sized by (intro for_each_succeeds [where I = "sized N"]) auto

lemma cell_writes_bound:
  assumes "extent (ni, nj, nk) < 2 ^ 64" "i < ni" "j < nj" "k < nk"
  shows "\<forall>w \<in> set (cell_writes tree (ni, nj, nk) (i, j, k)). fst w < extent (ni, nj, nk)"
  using cell_writes_index [of _ tree ni nj nk i j k] unat_indice(2) [OF assms] by auto

lemma scatter_cell_sized:
  assumes "extent (ni, nj, nk) < 2 ^ 64" "i < ni" "j < nj" "k < nk"
    and "sized (extent (ni, nj, nk)) b"
  shows "scatter_cell tree (ni, nj, nk) (i, j, k) b \<noteq> Inl OutOfBounds \<and>
         (\<forall>b'. scatter_cell tree (ni, nj, nk) (i, j, k) b = Inr b' \<longrightarrow>
            sized (extent (ni, nj, nk)) b')"
  using writes_succeed [OF assms(5) cell_writes_bound [OF assms(1-4)], of tree]
  by (auto simp: scatter_cell_eq split: option.splits)

lemma scatter_cell_succeeds:
  assumes "extent (ni, nj, nk) < 2 ^ 64" "i < ni" "j < nj" "k < nk"
    and "sized (extent (ni, nj, nk)) b"
    and "nearest_iterative tree (query_point (i, j, k)) = Some p"
    and "roi_radius (distance p) = Some r"
  shows "\<exists>b'. scatter_cell tree (ni, nj, nk) (i, j, k) b = Inr b' \<and>
           sized (extent (ni, nj, nk)) b'"
  using writes_succeed [OF assms(5) cell_writes_bound [OF assms(1-4)], of tree]
  by (simp add: scatter_cell_eq assms(6,7))

subsection \<open>The normalisation of a list of cells\<close>

lemma flat_index_bound_cells:
  assumes "extent shape < 2 ^ 64" and "c \<in> set (cells shape)"
  shows "flat_index shape c < extent shape"
proof -
  obtain ni nj nk where shape: "shape = (ni, nj, nk)" by (cases shape)
  obtain i j k where c: "c = (i, j, k)" by (cases c)
  from assms(2) have "i < ni" "j < nj" "k < nk" by (simp_all add: shape c set_cells)
  with assms(1) show ?thesis
    unfolding shape c using unat_indice(2) [of ni nj nk i j k] by (simp add: flat_index_def)
qed

lemma flat_index_inj_cells:
  assumes "extent shape < 2 ^ 64" and "c \<in> set (cells shape)" and "c' \<in> set (cells shape)"
    and "flat_index shape c = flat_index shape c'"
  shows "c = c'"
proof -
  obtain ni nj nk where shape: "shape = (ni, nj, nk)" by (cases shape)
  obtain i j k where c: "c = (i, j, k)" by (cases c)
  obtain i' j' k' where c': "c' = (i', j', k')" by (cases c')
  from assms(2) have v: "i < ni" "j < nj" "k < nk" by (simp_all add: shape c set_cells)
  from assms(3) have v': "i' < ni" "j' < nj" "k' < nk" by (simp_all add: shape c' set_cells)
  from assms(4) have "unat (indice nj nk i j k) = unat (indice nj nk i' j' k')"
    by (simp add: flat_index_def shape c c')
  with assms(1) v v' have "i = i' \<and> j = j' \<and> k = k'"
    unfolding shape by (intro indice_inj)
  then show ?thesis by (simp add: c c')
qed

lemma normalize_cell_effect:
  assumes "sized N b" and "flat_index shape cell < N"
  shows "normalize_cell shape cell b =
     Inr (b\<lparr>interp_values_ptr := (interp_values_ptr b)[flat_index shape cell :=
        normalized (interp_values_ptr b ! flat_index shape cell)
          (contribution_counter_ptr b ! flat_index shape cell)]\<rparr>)"
proof -
  obtain ni nj nk where shape: "shape = (ni, nj, nk)" by (cases shape)
  obtain i j k where c: "cell = (i, j, k)" by (cases cell)
  show ?thesis
    using assms
    by (simp add: normalize_cell_def flat_index_def shape c sized_def normalized_def Let_def)
qed

lemma normalize_cells:
  assumes ext: "extent shape < 2 ^ 64"
    and "distinct cs" and "set cs \<subseteq> set (cells shape)" and "sized (extent shape) b"
  shows "\<exists>b'. for_each cs (normalize_cell shape) b = Inr b' \<and>
           contribution_counter_ptr b' = contribution_counter_ptr b \<and>
           length (interp_values_ptr b') = length (interp_values_ptr b) \<and>
           (\<forall>n < extent shape. interp_values_ptr b' ! n =
              (if n \<in> flat_index shape ` set cs
               then normalized (interp_values_ptr b ! n) (contribution_counter_ptr b ! n)
               else interp_values_ptr b ! n))"
  using assms(2-4)
proof (induction cs arbitrary: b)
  case Nil
  then show ?case by simp
next
  case (Cons c cs)
  let ?n = "flat_index shape c"
  let ?b1 = "b\<lparr>interp_values_ptr := (interp_values_ptr b)[?n :=
      normalized (interp_values_ptr b ! ?n) (contribution_counter_ptr b ! ?n)]\<rparr>"
  have c: "c \<in> set (cells shape)" using Cons.prems(2) by simp
  have n: "?n < extent shape" using ext c by (rule flat_index_bound_cells)
  have step: "normalize_cell shape c b = Inr ?b1"
    using Cons.prems(3) n by (rule normalize_cell_effect)
  have sized1: "sized (extent shape) ?b1" using Cons.prems(3) by (simp add: sized_def)
  have fresh: "?n \<notin> flat_index shape ` set cs"
  proof
    assume "?n \<in> flat_index shape ` set cs"
    then obtain c' where c': "c' \<in> set cs" and eq: "?n = flat_index shape c'" by auto
    have "c' \<in> set (cells shape)" using c' Cons.prems(2) by auto
    with ext c have "c = c'" using eq by (rule flat_index_inj_cells)
    with c' Cons.prems(1) show False by simp
  qed
  from Cons.IH [of ?b1] Cons.prems sized1
  obtain b' where b': "for_each cs (normalize_cell shape) ?b1 = Inr b'"
    and cnt: "contribution_counter_ptr b' = contribution_counter_ptr ?b1"
    and len: "length (interp_values_ptr b') = length (interp_values_ptr ?b1)"
    and vals: "\<forall>n < extent shape. interp_values_ptr b' ! n =
        (if n \<in> flat_index shape ` set cs
         then normalized (interp_values_ptr ?b1 ! n) (contribution_counter_ptr ?b1 ! n)
         else interp_values_ptr ?b1 ! n)"
    by auto
  have lenb: "length (interp_values_ptr b) = extent shape"
    using Cons.prems(3) by (simp add: sized_def)
  have "\<forall>n < extent shape. interp_values_ptr b' ! n =
      (if n \<in> flat_index shape ` set (c # cs)
       then normalized (interp_values_ptr b ! n) (contribution_counter_ptr b ! n)
       else interp_values_ptr b ! n)"
  proof (intro allI impI)
    fix m assume m: "m < extent shape"
    show "interp_values_ptr b' ! m =
      (if m \<in> flat_index shape ` set (c # cs)
       then normalized (interp_values_ptr b ! m) (contribution_counter_ptr b ! m)
       else interp_values_ptr b ! m)"
    proof (cases "m = ?n")
      case True
      then show ?thesis using vals m fresh lenb by simp
    next
      case False
      then show ?thesis using vals m lenb by (simp add: nth_list_update)
    qed
  qed
  with step b' cnt len show ?case by simp
qed

subsection \<open>The two passes of the call\<close>

lemma griddata_passes:
  assumes "length (known_coords args) \<le> length (known_values args)"
  shows "griddata args =
     (case for_each (cells (dims (interp_values args)))
             (scatter_cell (known_tree args) (dims (interp_values args))) (output_buffers args) of
        Inl e \<Rightarrow> Inl e
      | Inr b1 \<Rightarrow> for_each (cells (dims (interp_values args)))
                   (normalize_cell (dims (interp_values args))) b1)"
  using assms by (simp add: griddata_def Let_def for_each_cell_cells split: sum.splits)

lemma sized_output_buffers:
  "buffers_fit args \<Longrightarrow> sized (extent (dims (interp_values args))) (output_buffers args)"
  by (simp add: buffers_fit_def sized_def output_buffers_def)

lemma scatter_writes_flat_index:
  assumes "w \<in> set (scatter_writes tree shape)"
  shows "fst w \<in> flat_index shape ` set (cells shape)"
proof -
  obtain ni nj nk where shape: "shape = (ni, nj, nk)" by (cases shape)
  from assms obtain c where c: "c \<in> set (cells shape)" and w: "w \<in> set (cell_writes tree shape c)"
    by (auto simp: scatter_writes_def)
  obtain i j k where c': "c = (i, j, k)" by (cases c)
  from w have "fst w = flat_index shape c"
    unfolding shape c' by (simp add: cell_writes_index flat_index_def)
  with c show ?thesis by blast
qed

lemma scatter_pass_never_out_of_bounds:
  assumes ext: "extent shape < 2 ^ 64" and b: "sized (extent shape) b"
  shows "for_each (cells shape) (scatter_cell tree shape) b \<noteq> Inl OutOfBounds \<and>
         (\<forall>b'. for_each (cells shape) (scatter_cell tree shape) b = Inr b' \<longrightarrow>
            sized (extent shape) b')"
proof (rule for_each_never [where I = "sized (extent shape)"])
  fix c s assume c: "c \<in> set (cells shape)" and s: "sized (extent shape) s"
  obtain ni nj nk where shape: "shape = (ni, nj, nk)" by (cases shape)
  obtain i j k where c': "c = (i, j, k)" by (cases c)
  from c have "i < ni" "j < nj" "k < nk" by (simp_all add: shape c' set_cells)
  with ext s show "scatter_cell tree shape c s \<noteq> Inl OutOfBounds \<and>
      (\<forall>s'. scatter_cell tree shape c s = Inr s' \<longrightarrow> sized (extent shape) s')"
    unfolding shape c' by (intro scatter_cell_sized)
qed (rule b)

lemma scatter_pass_succeeds:
  assumes ext: "extent shape < 2 ^ 64" and b: "sized (extent shape) b"
    and q: "\<And>c. c \<in> set (cells shape) \<Longrightarrow>
      \<exists>p r. nearest_iterative tree (query_point c) = Some p \<and> roi_radius (distance p) = Some r"
  shows "\<exists>b'. for_each (cells shape) (scatter_cell tree shape) b = Inr b' \<and>
           sized (extent shape) b'"
proof (rule for_each_succeeds [where I = "sized (extent shape)"])
  fix c s assume c: "c \<in> set (cells shape)" and s: "sized (extent shape) s"
  obtain ni nj nk where shape: "shape = (ni, nj, nk)" by (cases shape)
  obtain i j k where c': "c = (i, j, k)" by (cases c)
  from c have v: "i < ni" "j < nj" "k < nk" by (simp_all add: shape c' set_cells)
  from q [OF c] obtain p r where "nearest_iterative tree (query_point (i, j, k)) = Some p"
    "roi_radius (distance p) = Some r" by (auto simp: c')
  with ext v s show "\<exists>s'. scatter_cell tree shape c s = Inr s' \<and> sized (extent shape) s'"
    unfolding shape c' by (intro scatter_cell_succeeds)
qed (rule b)

lemma scatter_pass_effect:
  assumes "for_each (cells shape) (scatter_cell tree shape) b = Inr b1"
    and "sized N b" and "n < N"
  shows "sized N b1"
    and "interp_values_ptr b1 ! n = interp_values_ptr b ! n +
           sum_list (map snd (filter (\<lambda>w. fst w = n) (scatter_writes tree shape)))"
    and "contribution_counter_ptr b1 ! n = contribution_counter_ptr b ! n +
           real (length (filter (\<lambda>w. fst w = n) (scatter_writes tree shape)))"
proof -
  have "for_each_cell shape (scatter_cell tree shape) b = Inr b1"
    using assms(1) by (simp add: for_each_cell_cells)
  then have run: "for_each (scatter_writes tree shape) (\<lambda>w. accumulate (fst w) (snd w)) b = Inr b1"
    by (rule scatter_writes_run)
  note eff = for_each_accumulate_effect [OF run]
  from eff assms(2) show "sized N b1" by (simp add: sized_def)
  from eff assms(2,3) show "interp_values_ptr b1 ! n = interp_values_ptr b ! n +
           sum_list (map snd (filter (\<lambda>w. fst w = n) (scatter_writes tree shape)))"
    by (simp add: sized_def)
  from eff assms(2,3) show "contribution_counter_ptr b1 ! n = contribution_counter_ptr b ! n +
           real (length (filter (\<lambda>w. fst w = n) (scatter_writes tree shape)))"
    by (simp add: sized_def)
qed

lemma normalize_pass:
  assumes "extent shape < 2 ^ 64" and "sized (extent shape) b"
  shows "\<exists>b'. for_each (cells shape) (normalize_cell shape) b = Inr b' \<and>
           contribution_counter_ptr b' = contribution_counter_ptr b \<and>
           length (interp_values_ptr b') = length (interp_values_ptr b) \<and>
           (\<forall>n < extent shape. interp_values_ptr b' ! n =
              (if n \<in> flat_index shape ` set (cells shape)
               then normalized (interp_values_ptr b ! n) (contribution_counter_ptr b ! n)
               else interp_values_ptr b ! n))"
  using assms(1) distinct_cells subset_refl assms(2) by (rule normalize_cells)

lemma griddata_values:
  assumes fit: "buffers_fit args" and run: "griddata args = Inr b'"
    and n: "n < extent (dims (interp_values args))"
  shows "contribution_counter_ptr b' ! n =
           elems (contribution_counter args) ! n + real (length (values_added args n))"
    and "interp_values_ptr b' ! n =
           (if n \<in> flat_index (dims (interp_values args)) ` set (cells (dims (interp_values args)))
            then normalized (elems (interp_values args) ! n + sum_list (values_added args n))
                   (contribution_counter_ptr b' ! n)
            else elems (interp_values args) ! n + sum_list (values_added args n))"
    and "length (interp_values_ptr b') = extent (dims (interp_values args))"
    and "length (contribution_counter_ptr b') = extent (dims (interp_values args))"
proof -
  let ?shape = "dims (interp_values args)"
  let ?tree = "known_tree args"
  have len: "length (known_coords args) \<le> length (known_values args)"
    using run by (simp add: griddata_def Let_def split: if_splits)
  from run obtain b1 where
    sc: "for_each (cells ?shape) (scatter_cell ?tree ?shape) (output_buffers args) = Inr b1"
    and no: "for_each (cells ?shape) (normalize_cell ?shape) b1 = Inr b'"
    unfolding griddata_passes [OF len] by (auto split: sum.splits)
  have ext: "extent ?shape < 2 ^ 64" using fit by (simp add: buffers_fit_def)
  note s0 = sized_output_buffers [OF fit]
  note eff = scatter_pass_effect [OF sc s0 n]
  from normalize_pass [OF ext eff(1)] no
  have cnt: "contribution_counter_ptr b' = contribution_counter_ptr b1"
    and lenv: "length (interp_values_ptr b') = length (interp_values_ptr b1)"
    and vals: "\<forall>n < extent ?shape. interp_values_ptr b' ! n =
        (if n \<in> flat_index ?shape ` set (cells ?shape)
         then normalized (interp_values_ptr b1 ! n) (contribution_counter_ptr b1 ! n)
         else interp_values_ptr b1 ! n)"
    by auto
  have sum: "sum_list (map snd (filter (\<lambda>w. fst w = n) (scatter_writes ?tree ?shape))) =
      sum_list (values_added args n)"
    and card: "length (filter (\<lambda>w. fst w = n) (scatter_writes ?tree ?shape)) =
      length (values_added args n)"
    by (simp_all add: values_added_def)
  show "contribution_counter_ptr b' ! n =
      elems (contribution_counter args) ! n + real (length (values_added args n))"
    using eff(3) by (simp add: cnt card output_buffers_def)
  show "interp_values_ptr b' ! n =
      (if n \<in> flat_index ?shape ` set (cells ?shape)
       then normalized (elems (interp_values args) ! n + sum_list (values_added args n))
              (contribution_counter_ptr b' ! n)
       else elems (interp_values args) ! n + sum_list (values_added args n))"
    using vals n eff(2) by (simp add: cnt sum output_buffers_def)
  show "length (interp_values_ptr b') = extent ?shape"
    using eff(1) lenv by (simp add: sized_def)
  show "length (contribution_counter_ptr b') = extent ?shape"
    using eff(1) cnt by (simp add: sized_def)
qed

lemma values_added_cell:
  assumes "buffers_fit args" and "dims (interp_values args) = (ni, nj, nk)"
    and "i < ni" "j < nj" "k < nk"
  shows "values_added args (unat (indice nj nk i j k)) =
     map snd (cell_writes (known_tree args) (ni, nj, nk) (i, j, k))"
proof -
  have "extent (ni, nj, nk) < 2 ^ 64" using assms(1,2) by (simp add: buffers_fit_def)
  from filter_scatter_writes [OF this assms(3-5)] show ?thesis
    by (simp add: values_added_def assms(2))
qed

subsection \<open>Evaluation and the radius\<close>

lemma unat_minus_one_size_t: "unat (- 1 :: size_t) = 18446744073709551615"
  by (simp add: unsigned_minus_1_eq_mask mask_eq_exp_minus_1)

lemma zero_less_minus_one_size_t: "(0 :: size_t) < - 1"
  by (simp add: word_less_nat_alt unat_minus_one_size_t)

lemmas eval_simps =
  griddata_def known_tree_def output_buffers_def build_def for_each_cell_def indices_def
  upt_rec scatter_cell_def query_point_def nearest_iterative_def closer_def prune_def Let_def
  roi_radius_def roi_min_def roi_max_def clamp_def roi_indices_def
  distance_sq_to_roi_point_def delta_2_def accumulate_def indice_def normalize_cell_def
  unat_minus_one_size_t zero_less_minus_one_size_t

lemma roi_radius_Some:
  assumes "0 \<le> d" and "d \<le> 4611686014132420609"
  shows "roi_radius d = Some \<lceil>sqrt d\<rceil>"
proof -
  have "sqrt d \<le> sqrt (2147483647\<^sup>2)"
    using assms(2) by (intro real_sqrt_le_mono) simp
  then have "sqrt d \<le> 2147483647" by simp
  then have "\<lceil>sqrt d\<rceil> \<le> 2147483647" by (simp add: ceiling_le_iff)
  moreover have "0 \<le> sqrt d" using assms(1) by simp
  then have "0 \<le> (of_int \<lceil>sqrt d\<rceil> :: real)"
    using le_of_int_ceiling [of "sqrt d"] by (rule order_trans)
  then have "0 \<le> \<lceil>sqrt d\<rceil>" by (simp only: of_int_0_le_iff)
  ultimately show ?thesis by (simp add: roi_radius_def Let_def)
qed

lemma distance_sq_nonneg: "0 \<le> distance_sq p q"
  by (cases p; cases q) simp

lemma nearest_within:
  assumes "kp \<in> set known"
  shows "\<exists>p. nearest_iterative (build known) q = Some p \<and> 0 \<le> distance p \<and>
           distance p \<le> distance_sq q (fst kp) \<and>
           (point p, value p) \<in> set known \<and> distance p = distance_sq q (point p)"
proof -
  have ne: "known \<noteq> []" using assms by auto
  from is_best_Some [OF is_best_nearest_iterative ne, of q]
  obtain p where p: "nearest_iterative (build known) q = Some p"
    "(point p, value p) \<in> set known" "distance p = distance_sq q (point p)"
    "distance p = Min ((\<lambda>kp. distance_sq q (fst kp)) ` set known)"
    by blast
  have "distance p \<le> distance_sq q (fst kp)"
    unfolding p(4) using assms by (intro Min_le) auto
  moreover have "0 \<le> distance p" unfolding p(3) by (rule distance_sq_nonneg)
  ultimately show ?thesis using p by simp
qed

subsection \<open>The bounds of the region of interest\<close>

lemma clamp_zero: "clamp val 0 mx = (if val > mx then mx else val)"
  by (simp add: clamp_def)

text \<open>
  The upper limit of a loop over a region of interest is below \<open>2 ^ 64 - 1\<close>, so the
  loop counter reaches a value above the limit without wrapping.
\<close>

lemma clamp_le_max: "clamp val 0 mx \<le> mx"
  by (simp add: clamp_def not_less)

lemma unat_below_wrap:
  fixes ni :: size_t
  assumes "ni \<noteq> 0"
  shows "unat (ni - 1) < 2 ^ 64 - 1"
proof -
  have "unat ni < 2 ^ 64" using unsigned_less [of ni, where 'a = nat] by simp
  moreover have "0 < unat ni" using assms by (simp add: unat_gt_0)
  moreover have "unat (ni - 1) = unat ni - 1" using assms by (rule unat_minus_one)
  ultimately show ?thesis by linarith
qed

lemma roi_max_below_wrap:
  assumes "ni \<noteq> 0"
  shows "unat (roi_max i r ni) < 2 ^ 64 - 1"
proof -
  have "roi_max i r ni \<le> ni - 1" unfolding roi_max_def by (rule clamp_le_max)
  then have "unat (roi_max i r ni) \<le> unat (ni - 1)" by (simp only: word_le_nat_alt)
  with unat_below_wrap [OF assms] show ?thesis by linarith
qed

text \<open>
  The lower bound for a radius within the range of \<^verbatim>\<open>int\<close>: where the radius exceeds the
  index, the difference wraps, and on a dimension of at most \<open>2 ^ 63\<close> cells the clamp
  returns the upper limit; otherwise the bound is the difference.
\<close>

lemma unat_word_of_int_radius:
  assumes "0 \<le> r" and "r \<le> 2147483647"
  shows "unat (word_of_int r :: size_t) = nat r"
proof -
  have "nat r \<le> unat (2147483647 :: size_t)" using assms by simp
  then have "unat (of_nat (nat r) :: size_t) = nat r" by (rule le_unat_uoi)
  moreover have "(word_of_int r :: size_t) = of_nat (nat r)"
    using assms(1) by (rule word_of_int_nat)
  ultimately show ?thesis by (simp only:)
qed

lemma roi_min_wraps:
  assumes r: "r \<le> 2147483647" and lt: "int (unat i) < r" and ni: "ni \<noteq> 0"
    and small: "unat ni \<le> 2 ^ 63"
  shows "roi_min i r ni = ni - 1"
proof -
  have r0: "0 \<le> r" using lt by linarith
  note ur = unat_word_of_int_radius [OF r0 r]
  have i_lt: "unat i < nat r" using lt r0 by linarith
  have "unat (i - word_of_int r :: size_t) = unat i + 2 ^ 64 - nat r"
    using i_lt by (simp add: unat_sub_if_size ur word_size)
  moreover have "unat (ni - 1) = unat ni - 1" using ni by (rule unat_minus_one)
  moreover have "nat r \<le> 2147483647" using r by linarith
  ultimately have "unat (ni - 1) < unat (i - word_of_int r :: size_t)"
    using small by simp
  then have "ni - 1 < i - word_of_int r" by (simp only: word_less_nat_alt)
  then show ?thesis by (simp add: roi_min_def clamp_def)
qed

lemma roi_min_saturates_not:
  assumes r0: "0 \<le> r" and r: "r \<le> 2147483647" and ge: "r \<le> int (unat i)" and i: "i < ni"
  shows "roi_min i r ni = i - word_of_int r" and "unat (roi_min i r ni) = unat i - nat r"
proof -
  note ur = unat_word_of_int_radius [OF r0 r]
  have le: "nat r \<le> unat i" using ge r0 by linarith
  have u: "unat (i - word_of_int r :: size_t) = unat i - nat r"
    using le by (simp add: unat_sub_if_size ur)
  have "unat i < unat ni" using i by (simp only: word_less_nat_alt)
  then have "0 < unat ni" by linarith
  then have "ni \<noteq> 0" by auto
  then have "unat (ni - 1) = unat ni - 1" by (rule unat_minus_one)
  with u \<open>unat i < unat ni\<close> have "unat (i - word_of_int r :: size_t) \<le> unat (ni - 1)" by linarith
  then have "i - word_of_int r \<le> ni - 1" by (simp only: word_le_nat_alt)
  then have "\<not> ni - 1 < i - word_of_int r" by (simp only: not_less)
  then show "roi_min i r ni = i - word_of_int r" by (simp add: roi_min_def clamp_def)
  with u show "unat (roi_min i r ni) = unat i - nat r" by simp
qed

text \<open>
  C2. The claim: each bound of the bounding box is \<open>i - r\<close> or \<open>i + r\<close> clamped into
  \<open>[0, dimension - 1]\<close>, a negative \<open>i - r\<close> saturating to \<open>0\<close>. The program at cell index
  \<open>0\<close> with radius \<open>1\<close> in a dimension of extent \<open>3\<close>: the subtraction wraps to
  \<open>2 ^ 64 - 1\<close>, and the clamp returns the upper limit \<open>2\<close>, not \<open>max 0 (0 - 1) = 0\<close>.
\<close>

theorem roi_min_wraps_at_origin:
  "roi_min 0 1 3 = 2 \<and> (0 :: size_t) - word_of_int 1 = 18446744073709551615"
  by (simp add: roi_min_def clamp_def)

subsection \<open>The target of the scatter writes\<close>

text \<open>
  C1. The claim: a cell \<open>(i, j, k)\<close> adds the value of its nearest known point to the
  accumulator, and increments the counter, at every candidate cell \<open>(i', j', k')\<close> of its
  bounding box within the squared distance to that point. The program computes the flat
  index of the write from \<open>i\<close>, \<open>j\<close>, \<open>k\<close>, not from the candidate. With the known point
  \<open>(0, 0, 0)\<close> of value \<open>10\<close> on a grid of shape \<open>(2, 1, 1)\<close>, the cell \<open>(1, 0, 0)\<close> has
  squared distance \<open>1\<close> to its nearest known point, and the candidate \<open>(0, 0, 0)\<close> lies within
  it; the scatter of the cell \<open>(1, 0, 0)\<close> leaves the entries of the candidate \<open>(0, 0, 0)\<close>
  as they are and adds the value twice at the cell \<open>(1, 0, 0)\<close> itself. The call ends with
  the counters \<open>1\<close> and \<open>2\<close>, where the claim gives \<open>2\<close> and \<open>1\<close>.
\<close>

theorem scatter_cell_adds_at_source_cell: 
  "nearest_iterative (build [((0, 0, 0), 10)]) (query_point (1, 0, 0)) =
     Some \<lparr>point = (0, 0, 0), value = 10, distance = 1\<rparr> \<and>
   distance_sq_to_roi_point (1, 0, 0) (0, 0, 0) \<le> 1 \<and>
   scatter_cell (build [((0, 0, 0), 10)]) (2, 1, 1) (1, 0, 0)
     \<lparr>interp_values_ptr = [0, 0], contribution_counter_ptr = [0, 0]\<rparr> =
   Inr \<lparr>interp_values_ptr = [0, 20], contribution_counter_ptr = [0, 2]\<rparr> \<and>
   griddata \<lparr>known_coords = [(0, 0, 0)], known_values = [10],
     interp_values = \<lparr>dims = (2, 1, 1), elems = [0, 0]\<rparr>,
     contribution_counter = \<lparr>dims = (2, 1, 1), elems = [0, 0]\<rparr>\<rparr> =
   Inr \<lparr>interp_values_ptr = [10, 10], contribution_counter_ptr = [1, 2]\<rparr>"
  by (simp add: eval_simps)

subsection \<open>A single known point\<close>

text \<open>
  C3. The claim: with exactly one known point on a non-empty grid, the counter of every
  cell is at least \<open>1\<close> after the call. The program, with the known point \<open>(1, 0, 0)\<close> of
  value \<open>10\<close> on a grid of shape \<open>(3, 1, 1)\<close> and buffers of zeros: the cell \<open>(0, 0, 0)\<close>
  has radius \<open>1\<close>, its lower bound wraps to \<open>2\<close> above its upper bound \<open>1\<close>, its region of
  interest is empty, and its counter stays \<open>0\<close>.
\<close>

theorem single_point_counter_stays_zero:
  "griddata \<lparr>known_coords = [(1, 0, 0)], known_values = [10],
     interp_values = \<lparr>dims = (3, 1, 1), elems = [0, 0, 0]\<rparr>,
     contribution_counter = \<lparr>dims = (3, 1, 1), elems = [0, 0, 0]\<rparr>\<rparr> =
   Inr \<lparr>interp_values_ptr = [0, 10, 10], contribution_counter_ptr = [0, 1, 2]\<rparr>"
  by (simp add: eval_simps)

subsection \<open>No known points\<close>

text \<open>
  C4. The claim: with an empty set of known points the call writes nothing and returns
  successfully. The program queries the index for the first cell of a non-empty grid and
  uses the result without a check; the query on an index without points has no result.
\<close>

theorem griddata_empty_known_points:
  "griddata \<lparr>known_coords = [], known_values = [],
     interp_values = \<lparr>dims = (1, 1, 1), elems = [0]\<rparr>,
     contribution_counter = \<lparr>dims = (1, 1, 1), elems = [0]\<rparr>\<rparr> = Inl NullDereference"
  by (simp add: eval_simps)

subsection \<open>Mismatched arguments\<close>

text \<open>
  C5, as stated: the call rejects known coordinates and known values of different lengths,
  and output buffers of different shapes, before any processing. The program takes the
  number of known points from the coordinates and the shape from \<^verbatim>\<open>interp_values\<close>,
  and compares neither. With one known point, two known values and a counter buffer of
  shape \<open>(1, 1, 2)\<close> against \<open>(1, 1, 1)\<close>, the call runs both passes and writes both
  buffers.
\<close>

theorem griddata_accepts_mismatch:
  "length (known_coords \<lparr>known_coords = [(0, 0, 0)], known_values = [10, 99],
     interp_values = \<lparr>dims = (1, 1, 1), elems = [0]\<rparr>,
     contribution_counter = \<lparr>dims = (1, 1, 2), elems = [0, 0]\<rparr>\<rparr>) = 1 \<and>
   griddata \<lparr>known_coords = [(0, 0, 0)], known_values = [10, 99],
     interp_values = \<lparr>dims = (1, 1, 1), elems = [0]\<rparr>,
     contribution_counter = \<lparr>dims = (1, 1, 2), elems = [0, 0]\<rparr>\<rparr> =
   Inr \<lparr>interp_values_ptr = [10], contribution_counter_ptr = [1, 0]\<rparr>"
  by (simp add: eval_simps)

text \<open>
  C5, amended: the call checks neither the lengths nor the shapes. When there are at least
  as many known values as known coordinates, the surplus values and the dimensions of the
  counter buffer have no influence on the call: it does on the mismatched arguments what
  it does on the matching ones.
\<close>

theorem griddata_ignores_surplus_and_counter_dims:
  assumes "length (known_coords args) \<le> length (known_values args)"
  shows "griddata (args\<lparr>known_values := known_values args @ surplus,
            contribution_counter := (contribution_counter args)\<lparr>dims := d\<rparr>\<rparr>) = griddata args"
  using assms by (simp add: griddata_def known_tree_def output_buffers_def Let_def)

theorem griddata_ignores_surplus_and_counter_dims_witness:
  "length (known_coords \<lparr>known_coords = [(0, 0, 0)], known_values = [10],
       interp_values = \<lparr>dims = (1, 1, 1), elems = [0]\<rparr>,
       contribution_counter = \<lparr>dims = (1, 1, 1), elems = [0]\<rparr>\<rparr>)
     \<le> length (known_values \<lparr>known_coords = [(0, 0, 0)], known_values = [10],
       interp_values = \<lparr>dims = (1, 1, 1), elems = [0]\<rparr>,
       contribution_counter = \<lparr>dims = (1, 1, 1), elems = [0]\<rparr>\<rparr>) \<and>
   griddata \<lparr>known_coords = [(0, 0, 0)], known_values = [10, 99],
       interp_values = \<lparr>dims = (1, 1, 1), elems = [0]\<rparr>,
       contribution_counter = \<lparr>dims = (2, 3, 4), elems = [0]\<rparr>\<rparr> =
   griddata \<lparr>known_coords = [(0, 0, 0)], known_values = [10],
       interp_values = \<lparr>dims = (1, 1, 1), elems = [0]\<rparr>,
       contribution_counter = \<lparr>dims = (1, 1, 1), elems = [0]\<rparr>\<rparr>"
  using griddata_ignores_surplus_and_counter_dims
    [where args = "\<lparr>known_coords = [(0, 0, 0)], known_values = [10],
       interp_values = \<lparr>dims = (1, 1, 1), elems = [0]\<rparr>,
       contribution_counter = \<lparr>dims = (1, 1, 1), elems = [0]\<rparr>\<rparr>"
     and surplus = "[99]" and d = "(2, 3, 4)"]
  by simp

subsection \<open>The normalisation pass\<close>

text \<open>
  C6. The normalisation pass is the loop over \<open>cells\<close>, a list without repetition of
  exactly the cells \<open>(i, j, k)\<close> with \<open>i < ni\<close>, \<open>j < nj\<close>, \<open>k < nk\<close>. On buffers of the
  extent of the grid (fewer than \<open>2 ^ 64\<close> entries) the pass returns; it leaves the counters
  as they are, and for every cell of the grid the accumulator entry of the cell is the entry
  before the pass divided once by the counter of the cell if that counter is not zero, and
  the entry before the pass otherwise.
\<close>

theorem normalization_pass:
  assumes "extent (ni, nj, nk) < 2 ^ 64" and "sized (extent (ni, nj, nk)) b"
  shows "for_each_cell (ni, nj, nk) (normalize_cell (ni, nj, nk)) b =
       for_each (cells (ni, nj, nk)) (normalize_cell (ni, nj, nk)) b \<and>
     distinct (cells (ni, nj, nk)) \<and>
     (\<forall>i j k. (i, j, k) \<in> set (cells (ni, nj, nk)) \<longleftrightarrow> i < ni \<and> j < nj \<and> k < nk) \<and>
     (\<exists>b'. for_each_cell (ni, nj, nk) (normalize_cell (ni, nj, nk)) b = Inr b' \<and>
     contribution_counter_ptr b' = contribution_counter_ptr b \<and>
     length (interp_values_ptr b') = length (interp_values_ptr b) \<and>
     (\<forall>i j k. i < ni \<and> j < nj \<and> k < nk \<longrightarrow>
        interp_values_ptr b' ! unat (indice nj nk i j k) =
          (if contribution_counter_ptr b ! unat (indice nj nk i j k) \<noteq> 0
           then interp_values_ptr b ! unat (indice nj nk i j k) /
                contribution_counter_ptr b ! unat (indice nj nk i j k)
           else interp_values_ptr b ! unat (indice nj nk i j k))))"
proof -
  from normalize_pass [OF assms]
  obtain b' where run: "for_each (cells (ni, nj, nk)) (normalize_cell (ni, nj, nk)) b = Inr b'"
    and cnt: "contribution_counter_ptr b' = contribution_counter_ptr b"
    and len: "length (interp_values_ptr b') = length (interp_values_ptr b)"
    and vals: "\<forall>n < extent (ni, nj, nk). interp_values_ptr b' ! n =
        (if n \<in> flat_index (ni, nj, nk) ` set (cells (ni, nj, nk))
         then normalized (interp_values_ptr b ! n) (contribution_counter_ptr b ! n)
         else interp_values_ptr b ! n)"
    by blast
  have "interp_values_ptr b' ! unat (indice nj nk i j k) =
      normalized (interp_values_ptr b ! unat (indice nj nk i j k))
        (contribution_counter_ptr b ! unat (indice nj nk i j k))"
    if c: "i < ni" "j < nj" "k < nk" for i j k
  proof -
    have mem: "(i, j, k) \<in> set (cells (ni, nj, nk))" using c by (simp add: set_cells)
    then have "flat_index (ni, nj, nk) (i, j, k) \<in> flat_index (ni, nj, nk) ` set (cells (ni, nj, nk))"
      by (rule imageI)
    then have "unat (indice nj nk i j k) \<in> flat_index (ni, nj, nk) ` set (cells (ni, nj, nk))"
      by (simp add: flat_index_def)
    moreover have "unat (indice nj nk i j k) < extent (ni, nj, nk)"
      using assms(1) c by (rule unat_indice(2))
    ultimately show ?thesis using vals by simp
  qed
  then have "\<exists>b'. for_each_cell (ni, nj, nk) (normalize_cell (ni, nj, nk)) b = Inr b' \<and>
     contribution_counter_ptr b' = contribution_counter_ptr b \<and>
     length (interp_values_ptr b') = length (interp_values_ptr b) \<and>
     (\<forall>i j k. i < ni \<and> j < nj \<and> k < nk \<longrightarrow>
        interp_values_ptr b' ! unat (indice nj nk i j k) =
          (if contribution_counter_ptr b ! unat (indice nj nk i j k) \<noteq> 0
           then interp_values_ptr b ! unat (indice nj nk i j k) /
                contribution_counter_ptr b ! unat (indice nj nk i j k)
           else interp_values_ptr b ! unat (indice nj nk i j k)))"
    using run cnt len by (simp add: for_each_cell_cells normalized_def)
  moreover have "for_each_cell (ni, nj, nk) (normalize_cell (ni, nj, nk)) b =
       for_each (cells (ni, nj, nk)) (normalize_cell (ni, nj, nk)) b"
    by (rule for_each_cell_cells)
  moreover have "distinct (cells (ni, nj, nk))" by (rule distinct_cells)
  moreover have "\<forall>i j k. (i, j, k) \<in> set (cells (ni, nj, nk)) \<longleftrightarrow> i < ni \<and> j < nj \<and> k < nk"
    by (simp add: set_cells)
  ultimately show ?thesis by blast
qed

theorem normalization_pass_witness:
  "extent (2, 1, 1) < 2 ^ 64 \<and>
   sized (extent (2, 1, 1)) \<lparr>interp_values_ptr = [6, 7], contribution_counter_ptr = [2, 0]\<rparr> \<and>
   (\<exists>b'. for_each_cell (2, 1, 1) (normalize_cell (2, 1, 1))
           \<lparr>interp_values_ptr = [6, 7], contribution_counter_ptr = [2, 0]\<rparr> = Inr b' \<and>
         contribution_counter_ptr b' = [2, 0] \<and> length (interp_values_ptr b') = 2 \<and>
         interp_values_ptr b' ! 0 = 3 \<and> interp_values_ptr b' ! 1 = 7)"
proof -
  let ?b = "\<lparr>interp_values_ptr = [6, 7], contribution_counter_ptr = [2, 0]\<rparr>"
  have e: "extent (2, 1, 1) < 2 ^ 64" by (simp add: extent_def)
  have s: "sized (extent (2, 1, 1)) ?b" by (simp add: extent_def sized_def)
  from normalization_pass [OF e s] obtain b' where
    run: "for_each_cell (2, 1, 1) (normalize_cell (2, 1, 1)) ?b = Inr b'"
    and cnt: "contribution_counter_ptr b' = contribution_counter_ptr ?b"
    and len: "length (interp_values_ptr b') = length (interp_values_ptr ?b)"
    and vals: "\<forall>i j k. i < 2 \<and> j < 1 \<and> k < 1 \<longrightarrow>
        interp_values_ptr b' ! unat (indice 1 1 i j k) =
          (if contribution_counter_ptr ?b ! unat (indice 1 1 i j k) \<noteq> 0
           then interp_values_ptr ?b ! unat (indice 1 1 i j k) /
                contribution_counter_ptr ?b ! unat (indice 1 1 i j k)
           else interp_values_ptr ?b ! unat (indice 1 1 i j k))"
    by blast
  from vals [rule_format, of 0 0 0] have "interp_values_ptr b' ! 0 = 3"
    by (simp add: indice_def)
  moreover from vals [rule_format, of 1 0 0] have "interp_values_ptr b' ! 1 = 7"
    by (simp add: indice_def)
  ultimately show ?thesis using e s run cnt len by simp
qed

subsection \<open>Counters and means\<close>

text \<open>
  C7, as stated: for any known points and grid, every counter is a non-negative integer
  after the call, and a cell with accumulator initialised to zero and a non-zero counter
  holds the mean of the values added to it. The program adds to the counters that the
  caller passes: with one known point of value \<open>10\<close> at the only cell of the grid and a
  counter initialised to \<open>1 / 2\<close>, the counter ends as \<open>3 / 2\<close> and the accumulator as
  \<open>20 / 3\<close>, while the one value added is \<open>10\<close>.
\<close>

theorem griddata_seeded_counter:
  "griddata \<lparr>known_coords = [(0, 0, 0)], known_values = [10],
     interp_values = \<lparr>dims = (1, 1, 1), elems = [0]\<rparr>,
     contribution_counter = \<lparr>dims = (1, 1, 1), elems = [1 / 2]\<rparr>\<rparr> =
   Inr \<lparr>interp_values_ptr = [20 / 3], contribution_counter_ptr = [3 / 2]\<rparr> \<and>
   values_added \<lparr>known_coords = [(0, 0, 0)], known_values = [10],
     interp_values = \<lparr>dims = (1, 1, 1), elems = [0]\<rparr>,
     contribution_counter = \<lparr>dims = (1, 1, 1), elems = [1 / 2]\<rparr>\<rparr> 0 = [10]"
  by (simp add: eval_simps values_added_def scatter_writes_def cells_def cell_writes_def
      roi_points_def)

lemma values_added_flat_index:
  assumes "values_added args n \<noteq> []"
  shows "n \<in> flat_index (dims (interp_values args)) ` set (cells (dims (interp_values args)))"
proof -
  from assms obtain w where
    w: "w \<in> set (scatter_writes (known_tree args) (dims (interp_values args)))" and n: "fst w = n"
    by (auto simp: values_added_def filter_empty_conv)
  from w have "fst w \<in> flat_index (dims (interp_values args)) `
      set (cells (dims (interp_values args)))"
    by (rule scatter_writes_flat_index)
  with n show ?thesis by simp
qed

text \<open>
  C7, amended: when the caller has initialised every counter to zero and the call
  returns, every counter entry is the number of values that the scatter pass added at that
  position, a natural number; and where the accumulator was initialised to zero and the
  counter is not zero, the accumulator entry is the arithmetic mean of those values.
\<close>

theorem counters_and_means:
  assumes fit: "buffers_fit args" and run: "griddata args = Inr b'"
    and zero: "\<forall>c \<in> set (elems (contribution_counter args)). c = 0"
    and n: "n < extent (dims (interp_values args))"
  shows "contribution_counter_ptr b' ! n = real (length (values_added args n)) \<and>
         (elems (interp_values args) ! n = 0 \<and> contribution_counter_ptr b' ! n \<noteq> 0 \<longrightarrow>
            interp_values_ptr b' ! n =
              sum_list (values_added args n) / real (length (values_added args n)))"
proof -
  have "n < length (elems (contribution_counter args))"
    using fit n by (simp add: buffers_fit_def)
  then have c0: "elems (contribution_counter args) ! n = 0"
    using zero by (simp add: nth_mem)
  have cnt: "contribution_counter_ptr b' ! n = real (length (values_added args n))"
    using griddata_values(1) [OF fit run n] c0 by simp
  have "interp_values_ptr b' ! n =
      sum_list (values_added args n) / real (length (values_added args n))"
    if a0: "elems (interp_values args) ! n = 0" and nz: "contribution_counter_ptr b' ! n \<noteq> 0"
  proof -
    from nz cnt have "values_added args n \<noteq> []" by auto
    then have "n \<in> flat_index (dims (interp_values args)) `
        set (cells (dims (interp_values args)))"
      by (rule values_added_flat_index)
    with griddata_values(2) [OF fit run n] a0 nz cnt show ?thesis
      by (simp add: normalized_def)
  qed
  with cnt show ?thesis by simp
qed

theorem counters_and_means_witness:
  "griddata \<lparr>known_coords = [(1, 0, 0)], known_values = [10],
     interp_values = \<lparr>dims = (3, 1, 1), elems = [0, 0, 0]\<rparr>,
     contribution_counter = \<lparr>dims = (3, 1, 1), elems = [0, 0, 0]\<rparr>\<rparr> =
     Inr \<lparr>interp_values_ptr = [0, 10, 10], contribution_counter_ptr = [0, 1, 2]\<rparr> \<and>
   values_added \<lparr>known_coords = [(1, 0, 0)], known_values = [10],
     interp_values = \<lparr>dims = (3, 1, 1), elems = [0, 0, 0]\<rparr>,
     contribution_counter = \<lparr>dims = (3, 1, 1), elems = [0, 0, 0]\<rparr>\<rparr> 2 = [10, 10] \<and>
   (2 :: real) = real (length [10 :: real, 10]) \<and>
   (10 :: real) = sum_list [10, 10] / real (length [10 :: real, 10])"
proof -
  let ?args = "\<lparr>known_coords = [(1, 0, 0)], known_values = [10],
     interp_values = \<lparr>dims = (3, 1, 1), elems = [0, 0, 0]\<rparr>,
     contribution_counter = \<lparr>dims = (3, 1, 1), elems = [0, 0, 0]\<rparr>\<rparr>"
  let ?b' = "\<lparr>interp_values_ptr = [0, 10, 10], contribution_counter_ptr = [0, 1, 2]\<rparr>"
  have fit: "buffers_fit ?args" by (simp add: buffers_fit_def extent_def)
  have run: "griddata ?args = Inr ?b'" by (simp add: eval_simps)
  have zero: "\<forall>c \<in> set (elems (contribution_counter ?args)). c = 0" by simp
  have n: "2 < extent (dims (interp_values ?args))" by (simp add: extent_def)
  have va: "values_added ?args 2 = [10, 10]"
    by (simp add: eval_simps values_added_def scatter_writes_def cells_def cell_writes_def
      roi_points_def)
  from counters_and_means [OF fit run zero n] show ?thesis using run va by simp
qed

subsection \<open>Writes stay within the buffers\<close>

text \<open>
  C10. For buffers of the extent \<open>ni * nj * nk\<close> of the grid: the flat index of every cell
  \<open>(i, j, k)\<close> with \<open>i < ni\<close>, \<open>j < nj\<close>, \<open>k < nk\<close> is below the extent; every write of the
  scatter pass is at the flat index of such a cell, whatever the bounds of the region of
  interest are; and neither pass accesses a buffer out of bounds.
\<close>

theorem writes_within_extent:
  assumes "buffers_fit args" and "dims (interp_values args) = (ni, nj, nk)"
  shows "(\<forall>i j k. i < ni \<and> j < nj \<and> k < nk \<longrightarrow>
            unat (indice nj nk i j k) < unat ni * unat nj * unat nk) \<and>
         (\<forall>w \<in> set (scatter_writes (known_tree args) (ni, nj, nk)).
            \<exists>i j k. i < ni \<and> j < nj \<and> k < nk \<and> fst w = unat (indice nj nk i j k)) \<and>
         for_each_cell (ni, nj, nk) (scatter_cell (known_tree args) (ni, nj, nk))
            (output_buffers args) \<noteq> Inl OutOfBounds \<and>
         (\<forall>b1. for_each_cell (ni, nj, nk) (scatter_cell (known_tree args) (ni, nj, nk))
                 (output_buffers args) = Inr b1 \<longrightarrow>
               for_each_cell (ni, nj, nk) (normalize_cell (ni, nj, nk)) b1 \<noteq> Inl OutOfBounds) \<and>
         (length (known_coords args) \<le> length (known_values args) \<longrightarrow>
            griddata args \<noteq> Inl OutOfBounds)"
proof -
  let ?shape = "(ni, nj, nk)"
  have ext: "extent ?shape < 2 ^ 64" using assms by (simp add: buffers_fit_def)
  have s0: "sized (extent ?shape) (output_buffers args)"
    using sized_output_buffers [OF assms(1)] by (simp add: assms(2))
  have idx: "\<forall>i j k. i < ni \<and> j < nj \<and> k < nk \<longrightarrow>
      unat (indice nj nk i j k) < unat ni * unat nj * unat nk"
    using unat_indice(2) [OF ext] by (simp add: extent_def)
  have wr: "\<forall>w \<in> set (scatter_writes (known_tree args) ?shape).
      \<exists>i j k. i < ni \<and> j < nj \<and> k < nk \<and> fst w = unat (indice nj nk i j k)"
  proof
    fix w assume "w \<in> set (scatter_writes (known_tree args) ?shape)"
    then have "fst w \<in> flat_index ?shape ` set (cells ?shape)"
      by (rule scatter_writes_flat_index)
    then obtain c where c: "c \<in> set (cells ?shape)" and w: "fst w = flat_index ?shape c"
      by auto
    obtain i j k where c': "c = (i, j, k)" by (cases c)
    from c w show "\<exists>i j k. i < ni \<and> j < nj \<and> k < nk \<and> fst w = unat (indice nj nk i j k)"
      unfolding c' by (auto simp: set_cells flat_index_def)
  qed
  note sc = scatter_pass_never_out_of_bounds [OF ext s0, of "known_tree args"]
  have no: "for_each (cells ?shape) (normalize_cell ?shape) b1 \<noteq> Inl OutOfBounds"
    if "for_each (cells ?shape) (scatter_cell (known_tree args) ?shape) (output_buffers args) = Inr b1"
    for b1
  proof -
    from sc that have "sized (extent ?shape) b1" by simp
    from normalize_pass [OF ext this] show ?thesis by auto
  qed
  have "griddata args \<noteq> Inl OutOfBounds"
    if len: "length (known_coords args) \<le> length (known_values args)"
    unfolding griddata_passes [OF len] assms(2) using sc no by (auto split: sum.splits)
  with idx wr sc no show ?thesis by (simp add: for_each_cell_cells)
qed

theorem writes_within_extent_witness:
  "buffers_fit \<lparr>known_coords = [(1, 0, 0)], known_values = [10],
     interp_values = \<lparr>dims = (3, 1, 1), elems = [0, 0, 0]\<rparr>,
     contribution_counter = \<lparr>dims = (3, 1, 1), elems = [0, 0, 0]\<rparr>\<rparr> \<and>
   roi_min 0 1 3 = 2 \<and>
   unat (indice 1 1 0 0 0) < unat (3 :: size_t) * unat (1 :: size_t) * unat (1 :: size_t) \<and>
   griddata \<lparr>known_coords = [(1, 0, 0)], known_values = [10],
     interp_values = \<lparr>dims = (3, 1, 1), elems = [0, 0, 0]\<rparr>,
     contribution_counter = \<lparr>dims = (3, 1, 1), elems = [0, 0, 0]\<rparr>\<rparr> \<noteq> Inl OutOfBounds"
proof -
  let ?args = "\<lparr>known_coords = [(1, 0, 0)], known_values = [10],
     interp_values = \<lparr>dims = (3, 1, 1), elems = [0, 0, 0]\<rparr>,
     contribution_counter = \<lparr>dims = (3, 1, 1), elems = [0, 0, 0]\<rparr>\<rparr>"
  have fit: "buffers_fit ?args" by (simp add: buffers_fit_def extent_def)
  have d: "dims (interp_values ?args) = (3, 1, 1)" by simp
  have r: "roi_min 0 1 3 = 2" by (simp add: roi_min_def clamp_def)
  from writes_within_extent [OF fit d] fit r show ?thesis by simp
qed

subsection \<open>The example scenario\<close>

lemma buffers_fit_example: "buffers_fit example_args"
  by (simp add: buffers_fit_def example_args_def extent_def)

lemma known_tree_example:
  "known_tree example_args = build [((0, 0, 0), 10), ((5, 5, 5), 20)]"
  by (simp add: known_tree_def example_args_def)

lemma example_queries:
  assumes "c \<in> set (cells (6, 6, 6))"
  shows "\<exists>p r. nearest_iterative (known_tree example_args) (query_point c) = Some p \<and>
           roi_radius (distance p) = Some r"
proof -
  obtain i j k where c: "c = (i, j, k)" by (cases c)
  from assms have "i < 6" "j < 6" "k < 6" by (simp_all add: c set_cells)
  then have "unat i \<le> 5" "unat j \<le> 5" "unat k \<le> 5" by (simp_all add: word_less_nat_alt)
  then have "real (unat i) \<le> real 5" "real (unat j) \<le> real 5" "real (unat k) \<le> real 5"
    by (simp_all only: of_nat_le_iff)
  then have b: "real (unat i) \<le> 5" "real (unat j) \<le> 5" "real (unat k) \<le> 5" by simp_all
  have nn: "0 \<le> real (unat i)" "0 \<le> real (unat j)" "0 \<le> real (unat k)"
    by (rule of_nat_0_le_iff)+
  have sq: "x * x \<le> 25" if "0 \<le> x" "x \<le> 5" for x :: real
    using mult_mono [of x 5 x 5] that by simp
  have d0: "distance_sq (query_point c) (0, 0, 0) \<le> 75"
    using sq [OF nn(1) b(1)] sq [OF nn(2) b(2)] sq [OF nn(3) b(3)]
    by (simp add: c query_point_def)
  have "((0, 0, 0), 10) \<in> set [((0, 0, 0), 10), ((5, 5, 5), 20 :: real)]" by simp
  from nearest_within [OF this, of "query_point c"]
  obtain p where p: "nearest_iterative (build [((0, 0, 0), 10), ((5, 5, 5), 20)]) (query_point c) = Some p"
    and p0: "0 \<le> distance p" and ple: "distance p \<le> distance_sq (query_point c) (0, 0, 0)"
    by auto
  from ple d0 have "distance p \<le> 4611686014132420609" by simp
  with p0 have "roi_radius (distance p) = Some \<lceil>sqrt (distance p)\<rceil>"
    by (rule roi_radius_Some)
  with p show ?thesis by (simp add: known_tree_example)
qed

lemma example_succeeds: "\<exists>b'. griddata example_args = Inr b'"
proof -
  have d: "dims (interp_values example_args) = (6, 6, 6)" by (simp add: example_args_def)
  have ext: "extent (6, 6, 6) < 2 ^ 64" by (simp add: extent_def)
  have s0: "sized (extent (6, 6, 6)) (output_buffers example_args)"
    using sized_output_buffers [OF buffers_fit_example] by (simp add: d)
  from scatter_pass_succeeds [OF ext s0 example_queries]
  obtain b1 where
    b1: "for_each (cells (6, 6, 6)) (scatter_cell (known_tree example_args) (6, 6, 6))
           (output_buffers example_args) = Inr b1"
    and s1: "sized (extent (6, 6, 6)) b1"
    by blast
  from normalize_pass [OF ext s1]
  obtain b' where "for_each (cells (6, 6, 6)) (normalize_cell (6, 6, 6)) b1 = Inr b'" by blast
  moreover have "length (known_coords example_args) \<le> length (known_values example_args)"
    by (simp add: example_args_def)
  ultimately show ?thesis using b1 by (simp add: griddata_passes d)
qed

lemma example_origin:
  "nearest_iterative (known_tree example_args) (query_point (0, 0, 0)) =
     Some \<lparr>point = (0, 0, 0), value = 10, distance = 0\<rparr>"
  "roi_radius 0 = Some 0"
  "roi_points (6, 6, 6) (0, 0, 0) 0 = [(0, 0, 0)]"
  "cell_writes (known_tree example_args) (6, 6, 6) (0, 0, 0) = [(0, 10)]"
  by (simp_all add: example_args_def eval_simps roi_points_def cell_writes_def)

lemma example_corner:
  "nearest_iterative (known_tree example_args) (query_point (5, 5, 5)) =
     Some \<lparr>point = (5, 5, 5), value = 20, distance = 0\<rparr>"
  "roi_points (6, 6, 6) (5, 5, 5) 0 = [(5, 5, 5)]"
  "cell_writes (known_tree example_args) (6, 6, 6) (5, 5, 5) = [(215, 20)]"
  by (simp_all add: example_args_def eval_simps roi_points_def cell_writes_def)

text \<open>
  C8. Known points \<open>(0, 0, 0)\<close> with value \<open>10\<close> and \<open>(5, 5, 5)\<close> with value \<open>20\<close>, a
  grid of shape \<open>(6, 6, 6)\<close>, buffers of zeros. The call returns. The cell \<open>(0, 0, 0)\<close>
  finds the known point \<open>(0, 0, 0)\<close> at squared distance \<open>0\<close>, its radius is \<open>0\<close>, its only
  candidate is itself, and it ends with value \<open>10\<close> and counter \<open>1\<close>; the cell
  \<open>(5, 5, 5)\<close> likewise ends with value \<open>20\<close> and counter \<open>1\<close>.
\<close>

theorem example_two_points:
  "\<exists>b'. griddata example_args = Inr b' \<and>
     nearest_iterative (known_tree example_args) (query_point (0, 0, 0)) =
       Some \<lparr>point = (0, 0, 0), value = 10, distance = 0\<rparr> \<and>
     roi_radius 0 = Some 0 \<and>
     roi_points (6, 6, 6) (0, 0, 0) 0 = [(0, 0, 0)] \<and>
     interp_values_ptr b' ! flat_index (6, 6, 6) (0, 0, 0) = 10 \<and>
     contribution_counter_ptr b' ! flat_index (6, 6, 6) (0, 0, 0) = 1 \<and>
     nearest_iterative (known_tree example_args) (query_point (5, 5, 5)) =
       Some \<lparr>point = (5, 5, 5), value = 20, distance = 0\<rparr> \<and>
     roi_points (6, 6, 6) (5, 5, 5) 0 = [(5, 5, 5)] \<and>
     interp_values_ptr b' ! flat_index (6, 6, 6) (5, 5, 5) = 20 \<and>
     contribution_counter_ptr b' ! flat_index (6, 6, 6) (5, 5, 5) = 1"
proof -
  from example_succeeds obtain b' where run: "griddata example_args = Inr b'" ..
  have d: "dims (interp_values example_args) = (6, 6, 6)" by (simp add: example_args_def)
  note fit = buffers_fit_example
  have f0: "flat_index (6, 6, 6) (0, 0, 0) = 0" and f5: "flat_index (6, 6, 6) (5, 5, 5) = 215"
    by (simp_all add: flat_index_def indice_def)
  have n0: "0 < extent (dims (interp_values example_args))"
    and n5: "215 < extent (dims (interp_values example_args))"
    by (simp_all add: d extent_def)
  have m0: "0 \<in> flat_index (6, 6, 6) ` set (cells (6, 6, 6))"
    using imageI [of "(0, 0, 0)" "set (cells (6, 6, 6))" "flat_index (6, 6, 6)"]
    by (simp add: set_cells f0)
  have m5: "215 \<in> flat_index (6, 6, 6) ` set (cells (6, 6, 6))"
    using imageI [of "(5, 5, 5)" "set (cells (6, 6, 6))" "flat_index (6, 6, 6)"]
    by (simp add: set_cells f5)
  have v0: "values_added example_args 0 = [10]"
    using values_added_cell [OF fit d, of 0 0 0] by (simp add: example_origin indice_def)
  have v5: "values_added example_args 215 = [20]"
    using values_added_cell [OF fit d, of 5 5 5] by (simp add: example_corner indice_def)
  have z0: "elems (interp_values example_args) ! 0 = 0"
    "elems (contribution_counter example_args) ! 0 = 0"
    "elems (interp_values example_args) ! 215 = 0"
    "elems (contribution_counter example_args) ! 215 = 0"
    by (simp_all add: example_args_def)
  have c0: "contribution_counter_ptr b' ! 0 = 1"
    using griddata_values(1) [OF fit run n0] by (simp add: v0 z0)
  have a0: "interp_values_ptr b' ! 0 = 10"
    using griddata_values(2) [OF fit run n0] m0 by (simp add: v0 z0 c0 d normalized_def)
  have c5: "contribution_counter_ptr b' ! 215 = 1"
    using griddata_values(1) [OF fit run n5] by (simp add: v5 z0)
  have a5: "interp_values_ptr b' ! 215 = 20"
    using griddata_values(2) [OF fit run n5] m5 by (simp add: v5 z0 c5 d normalized_def)
  from run a0 c0 a5 c5 show ?thesis
    by (auto simp: f0 f5 example_origin example_corner)
qed

end
